theory Spec2Isabelle
  imports Complex_Main
begin

section \<open>NumPy primitives used by \<open>dipy/denoise/gibbs.py\<close>\<close>

text \<open>
  Floating-point intensities are idealised as \<^typ>\<open>real\<close>, spectra as \<^typ>\<open>complex\<close>.
  A 2-D array is the list of its rows; a NumPy array is rectangular, so the theorems assume
  that all rows of an input have one length. An array without rows does not record its
  number of columns. Every exception NumPy or the module raises is a value \<open>Inl e\<close>.
\<close>

datatype error = ValueError | IndexError | AxisError | TypeError

definition bindE :: "error + 'a \<Rightarrow> ('a \<Rightarrow> error + 'b) \<Rightarrow> error + 'b" where
  "bindE m f = (case m of Inl e \<Rightarrow> Inl e | Inr x \<Rightarrow> f x)"

definition ncols :: "'a list list \<Rightarrow> nat" where
  "ncols x = (case x of [] \<Rightarrow> 0 | r # _ \<Rightarrow> length r)"

definition rect :: "nat \<Rightarrow> nat \<Rightarrow> 'a list list \<Rightarrow> bool" where
  \<comment> \<open>\<open>x.shape == (m, n)\<close>\<close>
  "rect m n x = (length x = m \<and> list_all (\<lambda>r. length r = n) x)"

definition clip_index :: "int \<Rightarrow> nat \<Rightarrow> nat" where
  \<comment> \<open>a slice bound: negative bounds count from the end, all bounds are clipped to the axis\<close>
  "clip_index i n = (if i < 0 then nat (max 0 (i + int n)) else min (nat i) n)"

definition pyslice :: "'a list \<Rightarrow> int \<Rightarrow> int \<Rightarrow> 'a list" where
  \<comment> \<open>\<open>xs[a:b]\<close>\<close>
  "pyslice xs a b =
     (let s = clip_index a (length xs); e = clip_index b (length xs)
      in take (e - s) (drop s xs))"

definition pyslice_from :: "'a list \<Rightarrow> int \<Rightarrow> 'a list" where
  \<comment> \<open>\<open>xs[a:]\<close>\<close>
  "pyslice_from xs a = drop (clip_index a (length xs)) xs"

definition cols :: "'a list list \<Rightarrow> int \<Rightarrow> int \<Rightarrow> 'a list list" where
  \<comment> \<open>\<open>x[:, a:b]\<close>\<close>
  "cols x a b = map (\<lambda>r. pyslice r a b) x"

definition np_transpose :: "'a list list \<Rightarrow> 'a list list" where
  \<comment> \<open>\<open>x.T\<close>\<close>
  "np_transpose x = map (\<lambda>j. map (\<lambda>r. r ! j) x) [0..<ncols x]"

definition bdim :: "nat \<Rightarrow> nat \<Rightarrow> nat option" where
  \<comment> \<open>broadcasting of one pair of dimensions: equal, or one of them is 1\<close>
  "bdim m n = (if m = n then Some m else if m = 1 then Some n
               else if n = 1 then Some m else None)"

definition stretch :: "nat \<Rightarrow> 'a list \<Rightarrow> 'a list" where
  \<comment> \<open>an axis of length 1 is repeated \<open>n\<close> times, any other axis is left as it is\<close>
  "stretch n xs = (if length xs = n then xs else replicate n (hd xs))"

definition ew2 :: "('a \<Rightarrow> 'b \<Rightarrow> 'c) \<Rightarrow> 'a list list \<Rightarrow> 'b list list \<Rightarrow> error + 'c list list" where
  \<comment> \<open>an elementwise binary operation on 2-D arrays, with NumPy's broadcasting\<close>
  "ew2 f a b =
     (case (bdim (length a) (length b), bdim (ncols a) (ncols b)) of
        (Some m, Some n) \<Rightarrow>
          Inr (map2 (\<lambda>r s. map2 f (stretch n r) (stretch n s)) (stretch m a) (stretch m b))
      | _ \<Rightarrow> Inl ValueError)"

definition abs_diff :: "real list list \<Rightarrow> real list list \<Rightarrow> error + real list list" where
  \<comment> \<open>\<open>np.absolute(a - b)\<close>\<close>
  "abs_diff a b = ew2 (\<lambda>u v. \<bar>u - v\<bar>) a b"

section \<open>TV Estimator: \<open>_image_tv\<close>\<close>

definition orient :: "int \<Rightarrow> 'a list list \<Rightarrow> 'a list list" where
  \<comment> \<open>\<open>x.copy() if axis else x.T.copy()\<close>, and the same choice on return\<close>
  "orient axis x = (if axis \<noteq> 0 then x else np_transpose x)"

definition wrap_pad :: "int \<Rightarrow> 'a list \<Rightarrow> 'a list" where
  \<comment> \<open>one row of \<open>np.concatenate((xs[:, (-n_points-1):], xs, xs[:, 0:(n_points+1)]), axis=1)\<close>\<close>
  "wrap_pad n_points r = pyslice_from r (- n_points - 1) @ r @ pyslice r 0 (n_points + 1)"

fun tv_loop ::
  "real list list \<Rightarrow> int \<Rightarrow> int list \<Rightarrow> real list list \<times> real list list
     \<Rightarrow> error + (real list list \<times> real list list)" where
  \<comment> \<open>the body of \<open>for n in range(1, n_points)\<close>, lines 48 to 52\<close>
  "tv_loop xs p [] acc = Inr acc"
| "tv_loop xs p (n # ns) acc =
     bindE (abs_diff (cols xs (p + 1 + n) (- p - 1 + n)) (cols xs (p + 2 + n) (- p + n)))
       (\<lambda>dp. bindE (ew2 (+) (fst acc) dp)
       (\<lambda>ptv. bindE (abs_diff (cols xs (p + 1 - n) (- p - 1 - n)) (cols xs (p - n) (- p - 2 - n)))
       (\<lambda>dn. bindE (ew2 (+) (snd acc) dn)
       (\<lambda>ntv. tv_loop xs p ns (ptv, ntv)))))"

definition image_tv ::
  "real list list \<Rightarrow> int \<Rightarrow> int \<Rightarrow> error + (real list list \<times> real list list)" where
  "image_tv x axis n_points =
     (let xs = map (wrap_pad n_points) (orient axis x)
      in bindE (abs_diff (cols xs (n_points + 1) (- n_points - 1))
                         (cols xs (n_points + 2) (- n_points)))
        (\<lambda>ptv0. bindE (abs_diff (cols xs (n_points + 1) (- n_points - 1))
                                 (cols xs n_points (- n_points - 2)))
        (\<lambda>ntv0. bindE (tv_loop xs n_points [1..n_points - 1] (ptv0, ntv0))
        (\<lambda>(ptv, ntv). Inr (orient axis ptv, orient axis ntv)))))"

section \<open>Fourier transforms and grids\<close>

definition linspace :: "real \<Rightarrow> real \<Rightarrow> nat \<Rightarrow> real list" where
  \<comment> \<open>\<open>np.linspace(a, b, num)\<close>: \<open>num\<close> evenly spaced samples, both ends included\<close>
  "linspace a b num =
     (if num = 1 then [a]
      else map (\<lambda>i. a + real i * ((b - a) / real (num - 1))) [0..<num])"

definition fft2 :: "complex list list \<Rightarrow> error + complex list list" where
  \<comment> \<open>\<open>np.fft.fft2\<close>; an axis without data points is refused\<close>
  "fft2 x =
     (let m = length x; n = ncols x
      in if m = 0 \<or> n = 0 then Inl ValueError
         else Inr (map (\<lambda>u. map (\<lambda>v.
                \<Sum>r\<leftarrow>[0..<m]. \<Sum>c\<leftarrow>[0..<n].
                  x ! r ! c * exp (- (2 * of_real pi * \<i>
                    * (of_nat (u * r) / of_nat m + of_nat (v * c) / of_nat n))))
              [0..<n]) [0..<m]))"

definition ifft2 :: "complex list list \<Rightarrow> error + complex list list" where
  \<comment> \<open>\<open>np.fft.ifft2\<close>\<close>
  "ifft2 x =
     (let m = length x; n = ncols x
      in if m = 0 \<or> n = 0 then Inl ValueError
         else Inr (map (\<lambda>r. map (\<lambda>c.
                (\<Sum>u\<leftarrow>[0..<m]. \<Sum>v\<leftarrow>[0..<n].
                  x ! u ! v * exp (2 * of_real pi * \<i>
                    * (of_nat (u * r) / of_nat m + of_nat (v * c) / of_nat n)))
                / of_nat (m * n))
              [0..<n]) [0..<m]))"

definition roll_half :: "'a list \<Rightarrow> 'a list" where
  \<comment> \<open>\<open>np.roll(xs, len(xs) // 2)\<close>\<close>
  "roll_half xs = (let n = length xs in drop (n - n div 2) xs @ take (n - n div 2) xs)"

definition fftshift :: "'a list list \<Rightarrow> 'a list list" where
  \<comment> \<open>\<open>np.fft.fftshift\<close> of a 2-D array: both axes are rolled by half their length\<close>
  "fftshift x = roll_half (map roll_half x)"

section \<open>1D Line Corrector: \<open>_gibbs_removal_1d\<close>\<close>

definition ssamp :: "real list" where
  "ssamp = linspace (2 / 100) (9 / 10) 45"

definition mask_matches :: "bool list list \<Rightarrow> 'a list list \<Rightarrow> bool" where
  \<comment> \<open>NumPy compares a boolean index with the indexed array axis by axis, and only along
      the axes on which the index has entries: an index with an axis of length 0 is not
      checked along that axis\<close>
  "mask_matches msk a =
     ((length msk = 0 \<or> length msk = length a) \<and> (ncols msk = 0 \<or> ncols msk = ncols a))"

definition mask_empty :: "bool list list \<Rightarrow> bool" where
  \<comment> \<open>a boolean index with an axis of length 0 selects nothing\<close>
  "mask_empty msk = (length msk = 0 \<or> ncols msk = 0)"

definition mask_set :: "'a list list \<Rightarrow> bool list list \<Rightarrow> 'a list list \<Rightarrow> error + 'a list list" where
  \<comment> \<open>\<open>a[msk] = b[msk]\<close>; a boolean index that does not match the array it indexes is an
      IndexError\<close>
  "mask_set a msk b =
     (if mask_matches msk b \<and> mask_matches msk a
      then Inr (if mask_empty msk then a
                else map2 (\<lambda>ra (rm, rb). map2 (\<lambda>u (t, v). if t then v else u) ra (zip rm rb))
                       a (zip msk b))
      else Inl IndexError)"

definition mask_fill :: "'a list list \<Rightarrow> bool list list \<Rightarrow> 'a \<Rightarrow> error + 'a list list" where
  \<comment> \<open>\<open>a[msk] = s\<close>\<close>
  "mask_fill a msk s =
     (if mask_matches msk a
      then Inr (if mask_empty msk then a
                else map2 (\<lambda>ra rm. map2 (\<lambda>u t. if t then s else u) ra rm) a msk)
      else Inl IndexError)"

definition freq_ramp :: "nat \<Rightarrow> complex list" where
  \<comment> \<open>\<open>k = np.linspace(-N/2, N/2-1, num=N); k = (2.0j * np.pi * k) / N\<close>\<close>
  "freq_ramp N =
     map (\<lambda>t. (2 * \<i> * of_real pi * of_real t) / of_nat N)
       (linspace (- (real N / 2)) (real N / 2 - 1) N)"

definition shifted_image :: "complex list list \<Rightarrow> complex list \<Rightarrow> real \<Rightarrow> error + real list list" where
  \<comment> \<open>\<open>abs(np.fft.ifft2(np.fft.fftshift(c * np.exp(k*s))))\<close>; \<open>k\<close> has one entry for each
      column of \<open>c\<close> and multiplies every row\<close>
  "shifted_image c k s =
     bindE (ifft2 (fftshift (map (\<lambda>r. map2 (*) r (map (\<lambda>kj. exp (kj * of_real s)) k)) c)))
       (\<lambda>y. Inr (map (map cmod) y))"

definition min_tv :: "real list list \<Rightarrow> int \<Rightarrow> error + real list list" where
  \<comment> \<open>\<open>tvr, tvl = _image_tv(img, axis=1, n_points=n_points); np.minimum(tvr, tvl)\<close>\<close>
  "min_tv img n_points =
     bindE (image_tv img 1 n_points) (\<lambda>(tvr, tvl). ew2 min tvr tvl)"

record search =
  isp :: "real list list"
  sp :: "real list list"
  tvp :: "real list list"
  isn :: "real list list"
  sn :: "real list list"
  tvn :: "real list list"

definition update_shift ::
  "real \<Rightarrow> real list list \<Rightarrow> real list list \<Rightarrow> real list list \<times> real list list \<times> real list list
     \<Rightarrow> error + (real list list \<times> real list list \<times> real list list)" where
  \<comment> \<open>lines 121 to 123 (and 126 to 128): the msk \<open>tv > tvs\<close> is the same in the three
      statements, since \<open>tv\<close> is assigned last\<close>
  "update_shift s img tvs best =
     (case best of (im, sh, tv) \<Rightarrow>
        bindE (ew2 (\<lambda>u v. u > v) tv tvs) (\<lambda>msk.
        bindE (mask_set im msk img) (\<lambda>im'.
        bindE (mask_fill sh msk s) (\<lambda>sh'.
        bindE (mask_set tv msk tvs) (\<lambda>tv'. Inr (im', sh', tv'))))))"

definition search_step ::
  "complex list list \<Rightarrow> complex list \<Rightarrow> int \<Rightarrow> real \<Rightarrow> search \<Rightarrow> error + search" where
  \<comment> \<open>one pass of \<open>for s in ssamp\<close>, lines 110 to 128\<close>
  "search_step c k n_points s st =
     bindE (shifted_image c k s) (\<lambda>img_p.
     bindE (min_tv img_p n_points) (\<lambda>tvs_p.
     bindE (shifted_image c (map uminus k) s) (\<lambda>img_n.
     bindE (min_tv img_n n_points) (\<lambda>tvs_n.
     bindE (update_shift s img_p tvs_p (isp st, sp st, tvp st)) (\<lambda>(ip, shp, tp).
     bindE (update_shift s img_n tvs_n (isn st, sn st, tvn st)) (\<lambda>(im, shn, tn).
       Inr \<lparr>isp = ip, sp = shp, tvp = tp, isn = im, sn = shn, tvn = tn\<rparr>))))))"

fun search_loop ::
  "complex list list \<Rightarrow> complex list \<Rightarrow> int \<Rightarrow> real list \<Rightarrow> search \<Rightarrow> error + search" where
  "search_loop c k n_points [] st = Inr st"
| "search_loop c k n_points (s # ss) st =
     bindE (search_step c k n_points s st) (search_loop c k n_points ss)"

definition shift_search :: "real list list \<Rightarrow> int \<Rightarrow> real list \<Rightarrow> error + search" where
  \<comment> \<open>lines 95 to 128 on the oriented array \<open>xs\<close>, for the trial shifts \<open>grid\<close>\<close>
  "shift_search xs n_points grid =
     bindE (min_tv xs n_points) (\<lambda>tv0.
     let zeros = map (map (\<lambda>_. 0)) xs;
         N = ncols xs
     in bindE (fft2 (map (map of_real) xs)) (\<lambda>c0.
        search_loop (fftshift c0) (freq_ramp N) n_points grid
          \<lparr>isp = xs, sp = zeros, tvp = tv0, isn = xs, sn = zeros, tvn = tv0\<rparr>))"

definition nonzero2 :: "real list list \<Rightarrow> (nat \<times> nat) list" where
  \<comment> \<open>\<open>np.nonzero(a)\<close>: the positions of the non-zero entries, in row-major order\<close>
  "nonzero2 a =
     concat (map (\<lambda>i. map (\<lambda>j. (i, j)) (filter (\<lambda>j. a ! i ! j \<noteq> 0) [0..<length (a ! i)]))
               [0..<length a])"

definition take_idx :: "'a list list \<Rightarrow> (nat \<times> nat) list \<Rightarrow> 'a list" where
  \<comment> \<open>\<open>a[idx]\<close>\<close>
  "take_idx a idx = map (\<lambda>(i, j). a ! i ! j) idx"

definition put_idx :: "'a list list \<Rightarrow> (nat \<times> nat) list \<Rightarrow> 'a list \<Rightarrow> 'a list list" where
  \<comment> \<open>\<open>a[idx] = vals\<close>, one value for each position\<close>
  "put_idx a idx vals = fold (\<lambda>((i, j), v) b. b[i := (b ! i)[j := v]]) (zip idx vals) a"

definition shift_sum :: "search \<Rightarrow> real list list" where
  \<comment> \<open>\<open>sp + sn\<close>; both arrays have the shape of \<open>xs\<close>\<close>
  "shift_sum st = map2 (map2 (+)) (sp st) (sn st)"

definition denominators :: "search \<Rightarrow> real list" where
  \<comment> \<open>\<open>sp[idx] + sn[idx]\<close>, the divisors of line 135\<close>
  "denominators st =
     (let idx = nonzero2 (shift_sum st)
      in map2 (+) (take_idx (sp st) idx) (take_idx (sn st) idx))"

definition interpolate :: "real list list \<Rightarrow> search \<Rightarrow> real list list" where
  \<comment> \<open>lines 131 to 135:
      \<open>xs[idx] = (isp[idx] - isn[idx])/(sp[idx] + sn[idx])*sn[idx] + isn[idx]\<close>\<close>
  "interpolate xs st =
     (let idx = nonzero2 (shift_sum st);
          diff = map2 (-) (take_idx (isp st) idx) (take_idx (isn st) idx);
          quot = map2 (/) diff (denominators st);
          prod = map2 (*) quot (take_idx (sn st) idx)
      in put_idx xs idx (map2 (+) prod (take_idx (isn st) idx)))"

definition gibbs_removal_1d :: "real list list \<Rightarrow> int \<Rightarrow> int \<Rightarrow> error + real list list" where
  "gibbs_removal_1d x axis n_points =
     (let xs = orient axis x
      in bindE (shift_search xs n_points ssamp) (\<lambda>st. Inr (orient axis (interpolate xs st))))"

section \<open>Weight Generator: \<open>_weights\<close>\<close>

definition int_index :: "int \<Rightarrow> nat \<Rightarrow> error + nat" where
  \<comment> \<open>an integer index on an axis of length \<open>n\<close>; negative indices count from the end\<close>
  "int_index i n =
     (if - int n \<le> i \<and> i < int n then Inr (nat (i mod int n)) else Inl IndexError)"

definition slice_range :: "int \<Rightarrow> int \<Rightarrow> nat \<Rightarrow> nat list" where
  \<comment> \<open>the positions selected by \<open>a:b\<close> on an axis of length \<open>n\<close>\<close>
  "slice_range a b n = [clip_index a n..<clip_index b n]"

definition fill :: "'a list list \<Rightarrow> nat list \<Rightarrow> nat list \<Rightarrow> 'a \<Rightarrow> 'a list list" where
  \<comment> \<open>a scalar assigned to the rows \<open>rs\<close> and columns \<open>cs\<close> of \<open>a\<close>\<close>
  "fill a rs cs v =
     map (\<lambda>i. if i \<in> set rs
               then map (\<lambda>j. if j \<in> set cs then v else a ! i ! j) [0..<length (a ! i)]
               else a ! i) [0..<length a]"

definition set_block :: "'a list list \<Rightarrow> nat list \<Rightarrow> nat list \<Rightarrow> 'a list list \<Rightarrow> error + 'a list list" where
  \<comment> \<open>\<open>a[rs, cs] = v\<close> for consecutive rows \<open>rs\<close> and columns \<open>cs\<close>: \<open>v\<close> is broadcast to the
      shape of the block, and refused with a ValueError when it cannot be\<close>
  "set_block a rs cs v =
     (if (length v = length rs \<or> length v = 1) \<and> (ncols v = length cs \<or> ncols v = 1)
      then let w = map (stretch (length cs)) (stretch (length rs) v)
           in Inr (map (\<lambda>i. if i \<in> set rs
                     then map (\<lambda>j. if j \<in> set cs then w ! (i - hd rs) ! (j - hd cs) else a ! i ! j)
                            [0..<length (a ! i)]
                     else a ! i) [0..<length a])
      else Inl ValueError)"

definition weights :: "nat \<times> nat \<Rightarrow> error + (real list list \<times> real list list)" where
  "weights shape =
     (case shape of (m, n) \<Rightarrow>
      let G0 = replicate m (replicate n 0);
          G1 = replicate m (replicate n 0);
          k = linspace (- pi) pi m;
          ki = pyslice k 1 (- 1);
          K1 = map (\<lambda>_. ki) ki;
          K0 = map (\<lambda>a. map (\<lambda>_. a) ki) ki;
          cosk0 = map (map (\<lambda>t. 1 + cos t)) K0;
          cosk1 = map (map (\<lambda>t. 1 + cos t)) K1;
          mid_r = slice_range 1 (- 1) m;
          mid_c = slice_range 1 (- 1) n
      in bindE (set_block G1 mid_r mid_c
                  (map2 (map2 (/)) cosk0 (map2 (map2 (+)) cosk0 cosk1))) (\<lambda>G1.
         bindE (set_block G0 mid_r mid_c
                  (map2 (map2 (/)) cosk1 (map2 (map2 (+)) cosk0 cosk1))) (\<lambda>G0.
         bindE (int_index 0 n) (\<lambda>c0.
         bindE (int_index (- 1) n) (\<lambda>cl.
         bindE (int_index 0 m) (\<lambda>r0.
         bindE (int_index (- 1) m) (\<lambda>rl.
         let G1 = fill (fill G1 mid_r [c0] 1) mid_r [cl] 1;
             G1 = fill (fill (fill (fill G1 [r0] [c0] (1 / 2)) [rl] [cl] (1 / 2))
                    [r0] [cl] (1 / 2)) [rl] [c0] (1 / 2);
             G0 = fill (fill G0 [r0] mid_c 1) [rl] mid_c 1;
             G0 = fill (fill (fill (fill G0 [r0] [c0] (1 / 2)) [rl] [cl] (1 / 2))
                    [r0] [cl] (1 / 2)) [rl] [c0] (1 / 2)
         in Inr (G0, G1))))))))"

section \<open>2D Slice Combiner: \<open>_gibbs_removal_2d\<close>\<close>

datatype numpy_version = NumPy_1 | NumPy_2

definition any_is_None :: "numpy_version \<Rightarrow> 'a option \<Rightarrow> bool" where
  \<comment> \<open>\<open>np.any(G) is None\<close>. Of an array \<open>np.any\<close> is a boolean, never \<open>None\<close>. Of \<open>None\<close> it is
      the argument itself, \<open>None\<close>, before NumPy 2.0, and \<open>False\<close> from NumPy 2.0 on\<close>
  "any_is_None v G = (case G of None \<Rightarrow> v = NumPy_1 | Some _ \<Rightarrow> False)"

definition times_weights ::
  "complex list list \<Rightarrow> real list list option \<Rightarrow> error + complex list list" where
  \<comment> \<open>\<open>np.fft.fftshift(C) * G\<close>; the product of an array and \<open>None\<close> is a TypeError\<close>
  "times_weights C G =
     (case G of None \<Rightarrow> Inl TypeError | Some g \<Rightarrow> ew2 (*) C (map (map of_real) g))"

definition gibbs_removal_2d ::
  "numpy_version \<Rightarrow> real list list \<Rightarrow> int \<Rightarrow> real list list option \<Rightarrow> real list list option
     \<Rightarrow> error + real list list" where
  \<comment> \<open>the first argument is the version of NumPy the module runs on; \<open>None\<close> for \<open>G0\<close> or \<open>G1\<close>
      is the default of the keyword argument\<close>
  "gibbs_removal_2d v image2d n_points G0 G1 =
     bindE (if any_is_None v G0 \<or> any_is_None v G1
            then bindE (weights (length image2d, ncols image2d))
                   (\<lambda>(g0, g1). Inr (Some g0, Some g1))
            else Inr (G0, G1)) (\<lambda>(G0, G1).
     bindE (gibbs_removal_1d image2d 1 n_points) (\<lambda>img_c1.
     bindE (gibbs_removal_1d image2d 0 n_points) (\<lambda>img_c0.
     bindE (fft2 (map (map of_real) img_c1)) (\<lambda>C1.
     bindE (fft2 (map (map of_real) img_c0)) (\<lambda>C0.
     bindE (times_weights (fftshift C1) G1) (\<lambda>A.
     bindE (times_weights (fftshift C0) G0) (\<lambda>B.
     bindE (ew2 (+) A B) (\<lambda>S.
     bindE (ifft2 S) (\<lambda>y. Inr (map (map cmod) y))))))))))"

section \<open>Volume Dispatcher: \<open>gibbs_removal\<close>\<close>

text \<open>
  A volume of any rank is its shape and its elements in row-major (C) order. The model
  passes arrays by value; which arrays share storage is not part of it.
\<close>

record 'a ndarray =
  shape :: "nat list"
  data :: "'a list"

definition ndim :: "'a ndarray \<Rightarrow> nat" where
  "ndim v = length (shape v)"

fun ravel :: "nat list \<Rightarrow> nat list \<Rightarrow> nat" where
  \<comment> \<open>the position of a multi-index in row-major order\<close>
  "ravel (d # ds) (i # is) = i * prod_list ds + ravel ds is"
| "ravel _ _ = 0"

fun unravel :: "nat list \<Rightarrow> nat \<Rightarrow> nat list" where
  \<comment> \<open>the multi-index of a position in row-major order\<close>
  "unravel [] k = []"
| "unravel (d # ds) k = (k div prod_list ds) # unravel ds (k mod prod_list ds)"

definition swap_entries :: "nat \<Rightarrow> nat \<Rightarrow> 'a list \<Rightarrow> 'a list" where
  "swap_entries i j xs = xs[i := xs ! j, j := xs ! i]"

definition swapaxes :: "'a ndarray \<Rightarrow> int \<Rightarrow> int \<Rightarrow> error + 'a ndarray" where
  \<comment> \<open>\<open>np.swapaxes(v, a1, a2)\<close>; an axis outside \<open>-ndim .. ndim - 1\<close> is an AxisError\<close>
  "swapaxes v a1 a2 =
     (let nd = int (ndim v)
      in if - nd \<le> a1 \<and> a1 < nd \<and> - nd \<le> a2 \<and> a2 < nd
         then let i = nat (a1 mod nd); j = nat (a2 mod nd); sh = swap_entries i j (shape v)
              in Inr \<lparr>shape = sh,
                      data = map (\<lambda>k. data v ! ravel (shape v) (swap_entries i j (unravel sh k)))
                               [0..<prod_list sh]\<rparr>
         else Inl AxisError)"

definition reshape :: "'a ndarray \<Rightarrow> nat list \<Rightarrow> error + 'a ndarray" where
  \<comment> \<open>\<open>v.reshape(sh)\<close>: the elements in row-major order under another shape\<close>
  "reshape v sh =
     (if prod_list sh = prod_list (shape v) then Inr \<lparr>shape = sh, data = data v\<rparr>
      else Inl ValueError)"

definition to_rows :: "'a ndarray \<Rightarrow> 'a list list" where
  \<comment> \<open>a rank-2 array as the list of its rows\<close>
  "to_rows v =
     map (\<lambda>i. map (\<lambda>j. data v ! ravel (shape v) [i, j]) [0..<shape v ! 1]) [0..<shape v ! 0]"

definition of_rows :: "'a list list \<Rightarrow> 'a ndarray" where
  "of_rows x = \<lparr>shape = [length x, ncols x], data = concat x\<rparr>"

definition get_slice :: "'a ndarray \<Rightarrow> nat \<Rightarrow> 'a list list" where
  \<comment> \<open>\<open>vol[:, :, vi]\<close> of a rank-3 array\<close>
  "get_slice v vi =
     map (\<lambda>i. map (\<lambda>j. data v ! ravel (shape v) [i, j, vi]) [0..<shape v ! 1]) [0..<shape v ! 0]"

definition set_slice :: "'a ndarray \<Rightarrow> nat \<Rightarrow> 'a list list \<Rightarrow> error + 'a ndarray" where
  \<comment> \<open>\<open>vol[:, :, vi] = img\<close>: \<open>img\<close> is broadcast to the shape of the slice\<close>
  "set_slice v vi img =
     (let X = shape v ! 0; Y = shape v ! 1
      in if (length img = X \<or> length img = 1) \<and> (ncols img = Y \<or> ncols img = 1)
         then let w = map (stretch Y) (stretch X img)
              in Inr (v\<lparr>data := map (\<lambda>k. let ix = unravel (shape v) k
                                          in if ix ! 2 = vi then w ! (ix ! 0) ! (ix ! 1)
                                             else data v ! k)
                                   [0..<length (data v)]\<rparr>)
         else Inl ValueError)"

fun slice_loop ::
  "numpy_version \<Rightarrow> real ndarray \<Rightarrow> int \<Rightarrow> real list list \<Rightarrow> real list list \<Rightarrow> nat list
     \<Rightarrow> error + real ndarray" where
  \<comment> \<open>\<open>for vi in range(shap[2])\<close>, lines 309 to 311\<close>
  "slice_loop v vol n_points G0 G1 [] = Inr vol"
| "slice_loop v vol n_points G0 G1 (vi # vis) =
     bindE (gibbs_removal_2d v (get_slice vol vi) n_points (Some G0) (Some G1)) (\<lambda>img.
     bindE (set_slice vol vi img) (\<lambda>vol'. slice_loop v vol' n_points G0 G1 vis))"

definition run_slices ::
  "numpy_version \<Rightarrow> real ndarray \<Rightarrow> nat \<Rightarrow> int \<Rightarrow> error + real ndarray" where
  \<comment> \<open>lines 301 to 311, after the swap of the axes and the flattening\<close>
  "run_slices v vol nd n_points =
     (let shap = shape vol
      in bindE (weights (shap ! 0, shap ! 1)) (\<lambda>(G0, G1).
         if nd = 2
         then bindE (gibbs_removal_2d v (to_rows vol) n_points (Some G0) (Some G1))
                (\<lambda>img. Inr (of_rows img))
         else slice_loop v vol n_points G0 G1 [0..<shap ! 2]))"

definition gibbs_removal ::
  "numpy_version \<Rightarrow> real ndarray \<Rightarrow> int \<Rightarrow> int \<Rightarrow> error + real ndarray" where
  "gibbs_removal v vol slice_axis n_points =
     (let nd = ndim vol
      in bindE (if slice_axis > 2 then Inl ValueError
                else if slice_axis < 2 \<and> nd > 2 then swapaxes vol slice_axis 2
                else Inr vol) (\<lambda>vol1.
         let inishap = shape vol1
         in bindE (if nd = 4
                   then reshape vol1 [inishap ! 0, inishap ! 1, inishap ! 2 * inishap ! 3]
                   else if nd > 4 then Inl ValueError
                   else if nd < 2 then Inl ValueError
                   else Inr vol1) (\<lambda>vol2.
            bindE (run_slices v vol2 nd n_points) (\<lambda>vol3.
            bindE (if nd = 4 then reshape vol3 inishap else Inr vol3) (\<lambda>vol4.
            if slice_axis < 2 then swapaxes vol4 slice_axis 2 else Inr vol4)))))"

section \<open>Reference formulas\<close>

definition per :: "'a list \<Rightarrow> int \<Rightarrow> 'a" where
  \<comment> \<open>the periodic extension of a row: indices are taken modulo its length\<close>
  "per r j = r ! nat (j mod int (length r))"

definition table :: "nat \<Rightarrow> ('a list \<Rightarrow> int \<Rightarrow> 'b) \<Rightarrow> 'a list list \<Rightarrow> 'b list list" where
  \<comment> \<open>the array of \<open>n\<close> columns whose entry \<open>i\<close> of a row is \<open>g\<close> of the row of \<open>x\<close> and \<open>i\<close>\<close>
  "table n g x = map (\<lambda>r. map (\<lambda>i. g r (int i)) [0..<n]) x"

definition tv_pos :: "int \<Rightarrow> real list \<Rightarrow> int \<Rightarrow> real" where
  "tv_pos p r i = (\<Sum>n\<leftarrow>[0..p - 1]. \<bar>per r (i + n) - per r (i + 1 + n)\<bar>)"

definition tv_neg :: "int \<Rightarrow> real list \<Rightarrow> int \<Rightarrow> real" where
  "tv_neg p r i = (\<Sum>n\<leftarrow>[0..p - 1]. \<bar>per r (i - n) - per r (i - 1 - n)\<bar>)"

definition tv_pos_stated :: "int \<Rightarrow> real list \<Rightarrow> int \<Rightarrow> real" where
  \<comment> \<open>the positive-direction score in the words of the specification\<close>
  "tv_pos_stated p r i = (\<Sum>n\<leftarrow>[0..p - 1]. \<bar>per r (i + 1 + n) - per r (i + 2 + n)\<bar>)"

definition grid :: "nat \<Rightarrow> nat \<Rightarrow> (nat \<Rightarrow> nat \<Rightarrow> 'a) \<Rightarrow> 'a list list" where
  \<comment> \<open>the array of shape \<open>(m, n)\<close> with entry \<open>f i j\<close> at row \<open>i\<close> and column \<open>j\<close>\<close>
  "grid m n f = map (\<lambda>i. map (\<lambda>j. f i j) [0..<n]) [0..<m]"

definition entries :: "('a \<Rightarrow> bool) \<Rightarrow> 'a list list \<Rightarrow> bool" where
  \<comment> \<open>every entry of the array satisfies \<open>P\<close>\<close>
  "entries P a = list_all (list_all P) a"

definition shift_ok :: "real \<Rightarrow> bool" where
  \<comment> \<open>a recorded shift: 0, or a trial shift of the grid, which lies in [0.02, 0.9]\<close>
  "shift_ok v = (v = 0 \<or> (v \<in> set ssamp \<and> 2 / 100 \<le> v \<and> v \<le> 9 / 10))"

definition rect_state :: "nat \<Rightarrow> nat \<Rightarrow> search \<Rightarrow> bool" where
  "rect_state m n st =
     (rect m n (isp st) \<and> rect m n (sp st) \<and> rect m n (tvp st) \<and>
      rect m n (isn st) \<and> rect m n (sn st) \<and> rect m n (tvn st))"

definition inner :: "nat \<Rightarrow> nat \<Rightarrow> bool" where
  \<comment> \<open>a position selected by the slice \<open>1:-1\<close> on an axis of length \<open>n\<close>\<close>
  "inner n i = (1 \<le> i \<and> i < n - 1)"

definition taper :: "nat \<Rightarrow> nat \<Rightarrow> real" where
  \<comment> \<open>\<open>1 + cos k[i]\<close> on the angular grid \<open>k = linspace(-pi, pi, n)\<close>\<close>
  "taper n i = 1 + cos (linspace (- pi) pi n ! i)"

definition W1 :: "nat \<Rightarrow> nat \<Rightarrow> nat \<Rightarrow> real" where
  \<comment> \<open>the weight \<open>G1[i, j]\<close> of a square slice of side \<open>n\<close>\<close>
  "W1 n i j =
     (if inner n i \<and> inner n j then taper n i / (taper n i + taper n j)
      else if inner n i then 1
      else if inner n j then 0
      else 1 / 2)"

definition W0 :: "nat \<Rightarrow> nat \<Rightarrow> nat \<Rightarrow> real" where
  \<comment> \<open>the weight \<open>G0[i, j]\<close> of a square slice of side \<open>n\<close>\<close>
  "W0 n i j =
     (if inner n i \<and> inner n j then taper n j / (taper n i + taper n j)
      else if inner n i then 0
      else if inner n j then 1
      else 1 / 2)"

definition axis_swap_reference ::
  "numpy_version \<Rightarrow> real ndarray \<Rightarrow> int \<Rightarrow> error + real ndarray" where
  \<comment> \<open>the specification's route for a volume sliced along axis 0: transpose axes (0, 2),
      run with \<open>slice_axis = 2\<close>, transpose back\<close>
  "axis_swap_reference v vol n_points =
     bindE (swapaxes vol 0 2) (\<lambda>w.
     bindE (gibbs_removal v w 2 n_points) (\<lambda>r. swapaxes r 0 2))"

section \<open>Lemmas: broadcasting and the periodic padding\<close>


lemma bindE_Inr [simp]: "bindE (Inr x) f = f x"
  by (simp add: bindE_def)

lemma bindE_Inl [simp]: "bindE (Inl e) f = Inl e"
  by (simp add: bindE_def)

lemma rect_ncols: "rect m n a \<Longrightarrow> 0 < m \<Longrightarrow> ncols a = n"
  by (cases a) (auto simp: rect_def ncols_def)

lemma rect_ncols_eq: "rect m n a \<Longrightarrow> rect m n b \<Longrightarrow> ncols a = ncols b"
  by (cases a; cases b) (auto simp: rect_def ncols_def)

lemma rect_row: "rect m n a \<Longrightarrow> r \<in> set a \<Longrightarrow> length r = ncols a"
  by (cases a) (auto simp: rect_def ncols_def list_all_iff)

lemma ew2_rect:
  assumes a: "rect m n a" and b: "rect m n b"
  shows "ew2 f a b = Inr (map2 (map2 f) a b)"
proof -
  have len: "length a = m" "length b = m"
    using a b by (simp_all add: rect_def)
  have nc: "ncols b = ncols a"
    using rect_ncols_eq [OF a b] by simp
  have "map2 (\<lambda>r s. map2 f (stretch (ncols a) r) (stretch (ncols a) s)) a b = map2 (map2 f) a b"
  proof (rule map_cong [OF refl])
    fix z assume z: "z \<in> set (zip a b)"
    obtain r s where rs: "z = (r, s)" by (cases z)
    from z rs have "r \<in> set a" "s \<in> set b"
      by (auto dest: set_zip_leftD set_zip_rightD)
    then have "length r = ncols a" "length s = ncols a"
      using rect_row [OF a] rect_row [OF b] nc by auto
    then show "(case z of (r, s) \<Rightarrow> map2 f (stretch (ncols a) r) (stretch (ncols a) s))
        = (case z of (r, s) \<Rightarrow> map2 f r s)"
      by (simp add: rs stretch_def)
  qed
  then show ?thesis
    by (simp add: ew2_def bdim_def len nc stretch_def)
qed

lemma rect_table: "rect (length x) n (table n g x)"
  by (simp add: rect_def table_def list_all_iff)

lemma map2_table:
  "map2 (map2 f) (table n g x) (table n h x) = table n (\<lambda>r i. f (g r i) (h r i)) x"
  by (induction x) (simp_all add: table_def map2_map_map)
lemma abs_diff_table:
  "abs_diff (table n g x) (table n h x) = Inr (table n (\<lambda>r i. \<bar>g r i - h r i\<bar>) x)"
  unfolding abs_diff_def by (simp add: ew2_rect [OF rect_table rect_table] map2_table)

lemma add_table:
  "ew2 (+) (table n g x) (table n h x) = Inr (table n (\<lambda>r i. g r i + h r i) x)"
  by (simp add: ew2_rect [OF rect_table rect_table] map2_table)

lemma wrap_pad_eq:
  assumes "0 \<le> p" "p < int (length r)"
  shows "wrap_pad p r = drop (length r - nat (p + 1)) r @ r @ take (nat (p + 1)) r"
proof -
  have "nat (max 0 (- p - 1 + int (length r))) = length r - nat (p + 1)"
    using assms by linarith
  moreover have "min (nat (p + 1)) (length r) = nat (p + 1)"
    using assms by linarith
  ultimately show ?thesis
    using assms by (simp add: wrap_pad_def pyslice_from_def pyslice_def clip_index_def)
qed

lemma wrap_pad_nth:
  assumes p: "0 \<le> p" "p < int (length r)" and j: "j < length r + 2 * nat (p + 1)"
  shows "wrap_pad p r ! j = per r (int j - p - 1)"
proof -
  let ?N = "length r" and ?q = "nat (p + 1)"
  have q: "0 < ?q" "?q \<le> ?N" "int ?q = p + 1" using p by auto
  have N: "0 < int ?N" using p by auto
  consider "j < ?q" | "?q \<le> j" "j < ?q + ?N" | "?q + ?N \<le> j" by linarith
  then show ?thesis
  proof cases
    case 1
    have "(int j - p - 1) mod int ?N = (int j - p - 1 + int ?N) mod int ?N" by simp
    also have "\<dots> = int j - p - 1 + int ?N"
      using 1 q by (intro mod_pos_pos_trivial) auto
    finally have "nat ((int j - p - 1) mod int ?N) = ?N - ?q + j"
      using 1 q by auto
    then show ?thesis
      using 1 q by (simp add: wrap_pad_eq [OF p] per_def nth_append)
  next
    case 2
    have "(int j - p - 1) mod int ?N = int j - p - 1"
      using 2 q by (intro mod_pos_pos_trivial) auto
    then have "nat ((int j - p - 1) mod int ?N) = j - ?q"
      using 2 q by auto
    moreover have "j - ?q < ?N" using 2 by linarith
    ultimately show ?thesis
      using 2 q by (simp add: wrap_pad_eq [OF p] per_def nth_append)
  next
    case 3
    have "(int j - p - 1) mod int ?N = (int j - p - 1 - int ?N) mod int ?N" by simp
    also have "\<dots> = int j - p - 1 - int ?N"
      using 3 q j by (intro mod_pos_pos_trivial) auto
    finally have "nat ((int j - p - 1) mod int ?N) = j - ?q - ?N"
      using 3 q by auto
    moreover have "\<not> j < ?q" "\<not> j - ?q < ?N" "j - ?q - ?N < ?q" using 3 j by linarith+
    ultimately show ?thesis
      using q by (simp add: wrap_pad_eq [OF p] per_def nth_append)
  qed
qed

lemma slice_wrap_pad:
  assumes p: "0 \<le> p" "p < int (length r)" and a: "0 \<le> a" "a \<le> 2 * p + 1"
  shows "pyslice (wrap_pad p r) a (a - 2 * p - 2) = map (\<lambda>i. per r (int i + a - p - 1)) [0..<length r]"
proof -
  let ?N = "length r" and ?L = "length r + 2 * nat (p + 1)"
  have L: "length (wrap_pad p r) = ?L"
    using p by (simp add: wrap_pad_eq [OF p])
  have s: "clip_index a ?L = nat a"
    using p a by (auto simp: clip_index_def)
  have e: "clip_index (a - 2 * p - 2) ?L = nat a + ?N"
    using p a by (auto simp: clip_index_def)
  have eq: "pyslice (wrap_pad p r) a (a - 2 * p - 2) = take ?N (drop (nat a) (wrap_pad p r))"
    by (simp add: pyslice_def L s e)
  show ?thesis
  proof (rule nth_equalityI)
    show "length (pyslice (wrap_pad p r) a (a - 2 * p - 2)) = length (map (\<lambda>i. per r (int i + a - p - 1)) [0..<?N])"
      using p a by (simp add: eq L)
  next
    fix i assume "i < length (pyslice (wrap_pad p r) a (a - 2 * p - 2))"
    then have i: "i < ?N" by (simp add: eq)
    have "nat a + i < ?L" using p a i by auto
    from wrap_pad_nth [OF p this] have "wrap_pad p r ! (nat a + i) = per r (int i + a - p - 1)"
      using a by (simp add: algebra_simps)
    then show "pyslice (wrap_pad p r) a (a - 2 * p - 2) ! i = map (\<lambda>i. per r (int i + a - p - 1)) [0..<?N] ! i"
      using i p a by (simp add: eq L)
  qed
qed

lemma cols_wrap_pad:
  assumes x: "rect m n x" and p: "0 \<le> p" "p < int n" and a: "0 \<le> a" "a \<le> 2 * p + 1" and b: "b = a - 2 * p - 2"
  shows "cols (map (wrap_pad p) x) a b = table n (\<lambda>r i. per r (i + (a - p - 1))) x"
  unfolding cols_def table_def map_map b
proof (rule map_cong [OF refl])
  fix r assume "r \<in> set x"
  then have n: "length r = n" using x by (simp add: rect_def list_all_iff)
  show "((\<lambda>r. pyslice r a (a - 2 * p - 2)) \<circ> wrap_pad p) r = map (\<lambda>i. per r (int i + (a - p - 1))) [0..<n]"
    using slice_wrap_pad [of p r a] p a n by (simp add: algebra_simps)
qed

lemma tv_loop_table:
  assumes x: "rect m n x" and p: "0 \<le> p" "p < int n"
  shows "\<forall>k\<in>set ns. 1 \<le> k \<and> k \<le> p - 1 \<Longrightarrow>
     tv_loop (map (wrap_pad p) x) p ns (table n g x, table n h x) =
       Inr (table n (\<lambda>r i. g r i + (\<Sum>k\<leftarrow>ns. \<bar>per r (i + k) - per r (i + 1 + k)\<bar>)) x,
            table n (\<lambda>r i. h r i + (\<Sum>k\<leftarrow>ns. \<bar>per r (i - k) - per r (i - 1 - k)\<bar>)) x)"
proof (induction ns arbitrary: g h)
  case Nil
  show ?case by simp
next
  case (Cons k ns)
  have k: "1 \<le> k" "k \<le> p - 1" using Cons.prems by auto
  have ns: "\<forall>k\<in>set ns. 1 \<le> k \<and> k \<le> p - 1" using Cons.prems by auto
  have c1: "cols (map (wrap_pad p) x) (p + 1 + k) (- p - 1 + k) = table n (\<lambda>r i. per r (i + k)) x"
    using cols_wrap_pad [OF x p, of "p + 1 + k" "- p - 1 + k"] k by simp
  have c2: "cols (map (wrap_pad p) x) (p + 2 + k) (- p + k) = table n (\<lambda>r i. per r (i + 1 + k)) x"
    using cols_wrap_pad [OF x p, of "p + 2 + k" "- p + k"] k by (simp add: add.commute add.left_commute)
  have c3: "cols (map (wrap_pad p) x) (p + 1 - k) (- p - 1 - k) = table n (\<lambda>r i. per r (i - k)) x"
    using cols_wrap_pad [OF x p, of "p + 1 - k" "- p - 1 - k"] k by simp
  have c4: "cols (map (wrap_pad p) x) (p - k) (- p - 2 - k) = table n (\<lambda>r i. per r (i - 1 - k)) x"
    using cols_wrap_pad [OF x p, of "p - k" "- p - 2 - k"] k by (simp add: algebra_simps)
  show ?case
    unfolding tv_loop.simps fst_conv snd_conv c1 c2 c3 c4 abs_diff_table add_table bindE_Inr
      Cons.IH [OF ns]
    by (simp add: add.assoc)
qed

lemma image_tv_table:
  assumes x: "rect m n (orient axis x)" and p: "1 \<le> p" "p < int n"
  shows "image_tv x axis p =
           Inr (orient axis (table n (tv_pos p) (orient axis x)),
                orient axis (table n (tv_neg p) (orient axis x)))"
proof -
  let ?y = "orient axis x"
  have p0: "0 \<le> p" using p by simp
  have c1: "cols (map (wrap_pad p) ?y) (p + 1) (- p - 1) = table n (\<lambda>r i. per r i) ?y"
    using cols_wrap_pad [OF x p0 p(2), of "p + 1" "- p - 1"] p by simp
  have c2: "cols (map (wrap_pad p) ?y) (p + 2) (- p) = table n (\<lambda>r i. per r (i + 1)) ?y"
    using cols_wrap_pad [OF x p0 p(2), of "p + 2" "- p"] p by simp
  have c3: "cols (map (wrap_pad p) ?y) p (- p - 2) = table n (\<lambda>r i. per r (i - 1)) ?y"
    using cols_wrap_pad [OF x p0 p(2), of "p" "- p - 2"] p by simp
  have ns: "\<forall>k\<in>set [1..p - 1]. 1 \<le> k \<and> k \<le> p - 1" by simp
  have up: "[0..p - 1] = 0 # [1..p - 1]"
    using p upto_rec1 [of 0 "p - 1"] by simp
  have pos: "(\<lambda>r i. \<bar>per r i - per r (i + 1)\<bar> + (\<Sum>k\<leftarrow>[1..p - 1]. \<bar>per r (i + k) - per r (i + 1 + k)\<bar>)) = tv_pos p"
    by (intro ext) (simp add: tv_pos_def up)
  have neg: "(\<lambda>r i. \<bar>per r i - per r (i - 1)\<bar> + (\<Sum>k\<leftarrow>[1..p - 1]. \<bar>per r (i - k) - per r (i - 1 - k)\<bar>)) = tv_neg p"
    by (intro ext) (simp add: tv_neg_def up)
  show ?thesis
    unfolding image_tv_def Let_def c1 c2 c3 abs_diff_table bindE_Inr
      tv_loop_table [OF x p0 p(2) ns]
    by (simp add: pos neg)
qed

section \<open>Lemmas: arrays of a known shape\<close>




lemma rect_grid [simp]: "rect m n (grid m n f)"
  by (simp add: rect_def grid_def list_all_iff)

lemma grid_nth: "i < m \<Longrightarrow> j < n \<Longrightarrow> grid m n f ! i ! j = f i j"
  by (simp add: grid_def)

lemma grid_cong: "(\<And>i j. i < m \<Longrightarrow> j < n \<Longrightarrow> f i j = g i j) \<Longrightarrow> grid m n f = grid m n g"
  by (simp add: grid_def)

lemma rect_is_grid:
  assumes "rect m n a"
  shows "a = grid m n (\<lambda>i j. a ! i ! j)"
proof (rule nth_equalityI)
  show "length a = length (grid m n (\<lambda>i j. a ! i ! j))"
    using assms by (simp add: rect_def grid_def)
next
  fix i assume i: "i < length a"
  then have "length (a ! i) = n"
    using assms by (simp add: rect_def list_all_length)
  then have "a ! i = map (\<lambda>j. a ! i ! j) [0..<n]"
    by (metis map_nth)
  then show "a ! i = grid m n (\<lambda>i j. a ! i ! j) ! i"
    using i assms by (simp add: rect_def grid_def)
qed

lemma table_grid: "table n g x = grid (length x) n (\<lambda>i j. g (x ! i) (int j))"
  unfolding table_def grid_def by (rule nth_equalityI) simp_all

lemma map2_grid:
  "map2 (map2 f) (grid m n g) (grid m n h) = grid m n (\<lambda>i j. f (g i j) (h i j))"
  by (simp add: grid_def map2_map_map)

lemma ew2_grid: "ew2 f (grid m n g) (grid m n h) = Inr (grid m n (\<lambda>i j. f (g i j) (h i j)))"
  by (simp add: ew2_rect [OF rect_grid rect_grid] map2_grid)

lemma map_length_rect: "rect m n a \<Longrightarrow> map length a = replicate m n"
  by (auto simp: rect_def list_all_length list_eq_iff_nth_eq)

lemma ncols_grid: "0 < m \<Longrightarrow> ncols (grid m n f) = n"
  using rect_ncols [OF rect_grid] by blast

lemma length_grid [simp]: "length (grid m n f) = m"
  by (simp add: grid_def)

lemma grid_no_rows [simp]: "grid 0 n f = []"
  by (simp add: grid_def)

lemma grid_no_cols: "grid m 0 f = grid m 0 g"
  by (simp add: grid_def)

lemma mask_matches_grid: "mask_matches (grid m n k) (grid m n a)"
proof (cases "m = 0")
  case True
  then show ?thesis by (simp add: mask_matches_def ncols_def)
next
  case False
  then show ?thesis by (simp add: mask_matches_def ncols_grid)
qed

lemma mask_empty_grid: "mask_empty (grid m n k) \<longleftrightarrow> m = 0 \<or> n = 0"
proof (cases "m = 0")
  case True
  then show ?thesis by (simp add: mask_empty_def ncols_def)
next
  case False
  then show ?thesis by (simp add: mask_empty_def ncols_grid)
qed

lemma mask_set_grid:
  "mask_set (grid m n a) (grid m n k) (grid m n b) =
     Inr (grid m n (\<lambda>i j. if k i j then b i j else a i j))"
proof (cases "m = 0 \<or> n = 0")
  case True
  then have "grid m n a = grid m n (\<lambda>i j. if k i j then b i j else a i j)"
    by (auto simp: grid_no_cols [of m a])
  then show ?thesis
    using True by (simp add: mask_set_def mask_matches_grid mask_empty_grid)
next
  case False
  have "map2 (\<lambda>ra (rm, rb). map2 (\<lambda>u (t, v). if t then v else u) ra (zip rm rb))
          (grid m n a) (zip (grid m n k) (grid m n b)) =
        grid m n (\<lambda>i j. if k i j then b i j else a i j)"
    apply (rule nth_equalityI)
     apply (simp add: grid_def)
    apply (simp add: grid_def)
    apply (rule nth_equalityI)
     apply simp
    apply simp
    done
  then show ?thesis
    using False by (simp add: mask_set_def mask_matches_grid mask_empty_grid)
qed

lemma mask_fill_grid:
  "mask_fill (grid m n a) (grid m n k) s =
     Inr (grid m n (\<lambda>i j. if k i j then s else a i j))"
proof (cases "m = 0 \<or> n = 0")
  case True
  then have "grid m n a = grid m n (\<lambda>i j. if k i j then s else a i j)"
    by (auto simp: grid_no_cols [of m a])
  then show ?thesis
    using True by (simp add: mask_fill_def mask_matches_grid mask_empty_grid)
next
  case False
  have "map2 (\<lambda>ra rm. map2 (\<lambda>u t. if t then s else u) ra rm) (grid m n a) (grid m n k) =
        grid m n (\<lambda>i j. if k i j then s else a i j)"
    apply (rule nth_equalityI)
     apply (simp add: grid_def)
    apply (simp add: grid_def)
    apply (rule nth_equalityI)
     apply simp
    apply simp
    done
  then show ?thesis
    using False by (simp add: mask_fill_def mask_matches_grid mask_empty_grid)
qed

lemma entries_grid: "entries P (grid m n f) \<longleftrightarrow> (\<forall>i<m. \<forall>j<n. P (f i j))"
  by (auto simp: entries_def grid_def list_all_iff)

lemma map_map_grid: "map (map f) (grid m n g) = grid m n (\<lambda>i j. f (g i j))"
  by (simp add: grid_def)


section \<open>Lemmas: the shift search\<close>


lemma bindE_eq_Inr: "bindE m f = Inr y \<longleftrightarrow> (\<exists>x. m = Inr x \<and> f x = Inr y)"
  by (cases m) simp_all

lemma orient_nonzero [simp]: "axis \<noteq> 0 \<Longrightarrow> orient axis x = x"
  by (simp add: orient_def)

lemma orient_zero [simp]: "orient 0 x = np_transpose x"
  by (simp add: orient_def)

lemma tv_pos_nonneg: "0 \<le> tv_pos p r i"
  unfolding tv_pos_def by (rule sum_list_nonneg) auto

lemma tv_neg_nonneg: "0 \<le> tv_neg p r i"
  unfolding tv_neg_def by (rule sum_list_nonneg) auto

lemma min_tv_grid:
  assumes x: "rect m n x" and p: "1 \<le> p" "p < int n"
  shows "min_tv x p = Inr (grid m n (\<lambda>i j. min (tv_pos p (x ! i) (int j)) (tv_neg p (x ! i) (int j))))"
proof -
  have x1: "rect m n (orient 1 x)" using x by simp
  have len: "length x = m" using x by (simp add: rect_def)
  show ?thesis
    unfolding min_tv_def image_tv_table [OF x1 p]
    by (simp add: table_grid len ew2_grid)
qed

lemma per_replicate:
  assumes "0 < n"
  shows "per (replicate n c) j = c"
proof -
  have "0 \<le> j mod int n" "j mod int n < int n"
    using assms by simp_all
  then have "nat (j mod int n) < n" by linarith
  then show ?thesis by (simp add: per_def)
qed

lemma tv_pos_replicate: "0 < n \<Longrightarrow> tv_pos p (replicate n c) i = 0"
  by (simp add: tv_pos_def per_replicate)

lemma tv_neg_replicate: "0 < n \<Longrightarrow> tv_neg p (replicate n c) i = 0"
  by (simp add: tv_neg_def per_replicate)

lemma replicate_grid: "replicate m (replicate n c) = grid m n (\<lambda>_ _. c)"
  by (simp add: grid_def map_replicate_const)

lemma fft2_rect:
  assumes "rect m n x" "0 < m" "0 < n"
  shows "\<exists>c. fft2 x = Inr c \<and> rect m n c"
proof -
  have "length x = m" "ncols x = n"
    using assms rect_ncols [of m n x] by (simp_all add: rect_def)
  then show ?thesis
    using assms by (simp add: fft2_def Let_def rect_def list_all_iff)
qed

lemma ifft2_rect:
  assumes "rect m n x" "0 < m" "0 < n"
  shows "\<exists>c. ifft2 x = Inr c \<and> rect m n c"
proof -
  have "length x = m" "ncols x = n"
    using assms rect_ncols [of m n x] by (simp_all add: rect_def)
  then show ?thesis
    using assms by (simp add: ifft2_def Let_def rect_def list_all_iff)
qed

lemma length_roll_half [simp]: "length (roll_half xs) = length xs"
  by (simp add: roll_half_def Let_def)

lemma set_roll_half [simp]: "set (roll_half xs) = set xs"
proof -
  have "set (drop k xs) \<union> set (take k xs) = set xs" for k
    by (metis append_take_drop_id set_append sup_commute)
  then show ?thesis by (simp add: roll_half_def Let_def)
qed

lemma rect_fftshift: "rect m n x \<Longrightarrow> rect m n (fftshift x)"
  by (simp add: rect_def fftshift_def list_all_iff)

lemma rect_map_map: "rect m n x \<Longrightarrow> rect m n (map (map f) x)"
  by (simp add: rect_def list_all_iff)

lemma shifted_image_rect:
  assumes c: "rect m n c" and k: "length k = n" and mn: "0 < m" "0 < n"
  shows "\<exists>y. shifted_image c k s = Inr y \<and> rect m n y"
proof -
  have "rect m n (map (\<lambda>r. map2 (*) r (map (\<lambda>kj. exp (kj * of_real s)) k)) c)"
    using c k by (simp add: rect_def list_all_iff)
  then have "rect m n (fftshift (map (\<lambda>r. map2 (*) r (map (\<lambda>kj. exp (kj * of_real s)) k)) c))"
    by (rule rect_fftshift)
  from ifft2_rect [OF this mn] show ?thesis
    by (auto simp: shifted_image_def rect_map_map)
qed

lemma update_shift_grid:
  "update_shift s (grid m n I) (grid m n T) (grid m n A, grid m n S, grid m n V) =
     Inr (grid m n (\<lambda>i j. if V i j > T i j then I i j else A i j),
          grid m n (\<lambda>i j. if V i j > T i j then s else S i j),
          grid m n (\<lambda>i j. if V i j > T i j then T i j else V i j))"
  by (simp add: update_shift_def ew2_grid mask_set_grid mask_fill_grid)

lemma update_shift_keep:
  assumes r: "rect m n img" "rect m n im" "rect m n sh"
    and T: "\<And>i j. i < m \<Longrightarrow> j < n \<Longrightarrow> V i j \<le> T i j"
  shows "update_shift s img (grid m n T) (im, sh, grid m n V) = Inr (im, sh, grid m n V)"
proof -
  have g: "img = grid m n (\<lambda>i j. img ! i ! j)" "im = grid m n (\<lambda>i j. im ! i ! j)"
    "sh = grid m n (\<lambda>i j. sh ! i ! j)"
    using r by (auto dest: rect_is_grid)
  have "update_shift s (grid m n (\<lambda>i j. img ! i ! j)) (grid m n T)
          (grid m n (\<lambda>i j. im ! i ! j), grid m n (\<lambda>i j. sh ! i ! j), grid m n V) =
        Inr (grid m n (\<lambda>i j. im ! i ! j), grid m n (\<lambda>i j. sh ! i ! j), grid m n V)"
    unfolding update_shift_grid using T
    by (auto intro!: grid_cong simp: not_less [symmetric])
  then show ?thesis using g by simp
qed

text \<open>What the search writes into a shift field is the trial shift.\<close>

lemma mask_fill_entries:
  assumes "mask_fill a msk s = Inr a'" "entries P a" "P s"
  shows "entries P a'"
proof -
  have a': "a' = a \<or> a' = map2 (\<lambda>ra rm. map2 (\<lambda>u t. if t then s else u) ra rm) a msk"
    using assms(1) by (auto simp: mask_fill_def split: if_splits)
  have row: "list_all P (map2 (\<lambda>u t. if t then s else u) ra rm)" if "list_all P ra" for ra rm
    using that assms(3) by (auto simp: list_all_iff dest: set_zip_leftD)
  have "entries P (map2 (\<lambda>ra rm. map2 (\<lambda>u t. if t then s else u) ra rm) a msk)"
    unfolding entries_def list_all_iff
  proof (intro ballI)
    fix r v
    assume r: "r \<in> set (map2 (\<lambda>ra rm. map2 (\<lambda>u t. if t then s else u) ra rm) a msk)"
      and v: "v \<in> set r"
    from r obtain ra rm where ra: "(ra, rm) \<in> set (zip a msk)"
      and req: "r = map2 (\<lambda>u t. if t then s else u) ra rm"
      by auto
    from ra have "ra \<in> set a" by (rule set_zip_leftD)
    then have "list_all P ra"
      using assms(2) by (simp add: entries_def list_all_iff)
    from row [OF this, of rm] show "P v"
      using v req by (auto simp: list_all_iff)
  qed
  then show ?thesis
    using a' assms(2) by auto
qed

lemma update_shift_entries:
  assumes "update_shift s img tvs (im, sh, tv) = Inr (im', sh', tv')" "entries P sh" "P s"
  shows "entries P sh'"
  using assms unfolding update_shift_def
  by (auto simp: bindE_eq_Inr dest: mask_fill_entries)

lemma search_step_entries:
  assumes "search_step c k p s st = Inr st'" "entries P (sp st)" "entries P (sn st)" "P s"
  shows "entries P (sp st') \<and> entries P (sn st')"
  using assms unfolding search_step_def
  by (auto simp: bindE_eq_Inr dest: update_shift_entries)

lemma search_loop_entries:
  assumes "search_loop c k p ss st = Inr st'" "entries P (sp st)" "entries P (sn st)"
    "\<forall>s\<in>set ss. P s"
  shows "entries P (sp st') \<and> entries P (sn st')"
  using assms
proof (induction ss arbitrary: st)
  case Nil
  then show ?case by simp
next
  case (Cons s ss)
  from Cons.prems(1) obtain st1 where
    st1: "search_step c k p s st = Inr st1" "search_loop c k p ss st1 = Inr st'"
    by (auto simp: bindE_eq_Inr)
  have "entries P (sp st1) \<and> entries P (sn st1)"
    using search_step_entries [OF st1(1)] Cons.prems by simp
  then show ?case
    using Cons.IH [OF st1(2)] Cons.prems by simp
qed

lemma entries_zeros: "P 0 \<Longrightarrow> entries P (map (map (\<lambda>_. 0)) xs)"
  by (simp add: entries_def list_all_iff)

lemma shift_search_entries:
  assumes "shift_search xs p ss = Inr st" "P 0" "\<forall>s\<in>set ss. P s"
  shows "entries P (sp st) \<and> entries P (sn st)"
proof -
  from assms(1) obtain tv0 c0 where
    "search_loop (fftshift c0) (freq_ramp (ncols xs)) p ss
       \<lparr>isp = xs, sp = map (map (\<lambda>_. 0)) xs, tvp = tv0, isn = xs,
        sn = map (map (\<lambda>_. 0)) xs, tvn = tv0\<rparr> = Inr st"
    by (auto simp: shift_search_def bindE_eq_Inr Let_def)
  from search_loop_entries [OF this] show ?thesis
    using assms(2,3) by (simp add: entries_zeros)
qed

section \<open>Lemmas: constant images and the divisors of the interpolation\<close>

lemma length_linspace [simp]: "length (linspace a b n) = n"
  by (simp add: linspace_def)

lemma length_freq_ramp [simp]: "length (freq_ramp N) = N"
  by (simp add: freq_ramp_def)

lemma search_step_keep:
  assumes xs: "rect m n xs" and m: "0 < m" and p: "1 \<le> p" "p < int n"
    and c: "rect m n c" and k: "length k = n"
  shows "search_step c k p s
           \<lparr>isp = xs, sp = grid m n (\<lambda>_ _. 0), tvp = grid m n (\<lambda>_ _. 0),
            isn = xs, sn = grid m n (\<lambda>_ _. 0), tvn = grid m n (\<lambda>_ _. 0)\<rparr> =
         Inr \<lparr>isp = xs, sp = grid m n (\<lambda>_ _. 0), tvp = grid m n (\<lambda>_ _. 0),
              isn = xs, sn = grid m n (\<lambda>_ _. 0), tvn = grid m n (\<lambda>_ _. 0)\<rparr>"
proof -
  have n: "0 < n" using p by simp
  obtain ip where ip: "shifted_image c k s = Inr ip" "rect m n ip"
    using shifted_image_rect [OF c k m n] by blast
  have k': "length (map uminus k) = n" using k by simp
  obtain im where im: "shifted_image c (map uminus k) s = Inr im" "rect m n im"
    using shifted_image_rect [OF c k' m n] by blast
  have up: "update_shift s ip
              (grid m n (\<lambda>i j. min (tv_pos p (ip ! i) (int j)) (tv_neg p (ip ! i) (int j))))
              (xs, grid m n (\<lambda>_ _. 0), grid m n (\<lambda>_ _. 0)) =
            Inr (xs, grid m n (\<lambda>_ _. 0), grid m n (\<lambda>_ _. 0))"
    by (rule update_shift_keep [OF ip(2) xs rect_grid]) (simp add: tv_pos_nonneg tv_neg_nonneg)
  have un: "update_shift s im
              (grid m n (\<lambda>i j. min (tv_pos p (im ! i) (int j)) (tv_neg p (im ! i) (int j))))
              (xs, grid m n (\<lambda>_ _. 0), grid m n (\<lambda>_ _. 0)) =
            Inr (xs, grid m n (\<lambda>_ _. 0), grid m n (\<lambda>_ _. 0))"
    by (rule update_shift_keep [OF im(2) xs rect_grid]) (simp add: tv_pos_nonneg tv_neg_nonneg)
  show ?thesis
    unfolding search_step_def
    by (simp add: ip(1) im(1) min_tv_grid [OF ip(2) p] min_tv_grid [OF im(2) p] up un)
qed

lemma search_loop_keep:
  assumes "rect m n xs" "0 < m" "1 \<le> p" "p < int n" "rect m n c" "length k = n"
  shows "search_loop c k p ss
           \<lparr>isp = xs, sp = grid m n (\<lambda>_ _. 0), tvp = grid m n (\<lambda>_ _. 0),
            isn = xs, sn = grid m n (\<lambda>_ _. 0), tvn = grid m n (\<lambda>_ _. 0)\<rparr> =
         Inr \<lparr>isp = xs, sp = grid m n (\<lambda>_ _. 0), tvp = grid m n (\<lambda>_ _. 0),
              isn = xs, sn = grid m n (\<lambda>_ _. 0), tvn = grid m n (\<lambda>_ _. 0)\<rparr>"
  by (induction ss) (simp_all add: search_step_keep [OF assms])

lemma shift_search_constant:
  assumes m: "0 < m" and p: "1 \<le> p" "p < int n"
  shows "shift_search (grid m n (\<lambda>_ _. c)) p ss =
         Inr \<lparr>isp = grid m n (\<lambda>_ _. c), sp = grid m n (\<lambda>_ _. 0), tvp = grid m n (\<lambda>_ _. 0),
              isn = grid m n (\<lambda>_ _. c), sn = grid m n (\<lambda>_ _. 0), tvn = grid m n (\<lambda>_ _. 0)\<rparr>"
proof -
  let ?x = "grid m n (\<lambda>_ _. c)"
  have n: "0 < n" using p by simp
  have row: "?x ! i = replicate n c" if "i < m" for i
    using that by (simp add: grid_def map_replicate_const)
  have tv: "min_tv ?x p = Inr (grid m n (\<lambda>_ _. 0))"
    unfolding min_tv_grid [OF rect_grid p]
    by (auto intro!: grid_cong simp: row tv_pos_replicate [OF n] tv_neg_replicate [OF n])
  obtain c0 where c0: "fft2 (map (map of_real) ?x) = Inr c0" "rect m n c0"
    using fft2_rect [OF rect_map_map [OF rect_grid] m n] by blast
  have z: "map (map (\<lambda>_. 0::real)) ?x = grid m n (\<lambda>_ _. 0)"
    by (simp add: map_map_grid)
  show ?thesis
    unfolding shift_search_def
    by (simp add: tv c0(1) z ncols_grid [OF m] Let_def
        search_loop_keep [OF rect_grid m p rect_fftshift [OF c0(2)] length_freq_ramp])
qed

lemma nonzero2_zero: "nonzero2 (grid m n (\<lambda>_ _. 0)) = []"
  by (simp add: nonzero2_def grid_def filter_empty_conv)

lemma interpolate_keep:
  assumes "sp st = grid m n (\<lambda>_ _. 0)" "sn st = grid m n (\<lambda>_ _. 0)"
  shows "interpolate xs st = xs"
  by (simp add: interpolate_def shift_sum_def assms map2_grid nonzero2_zero put_idx_def Let_def)

lemma np_transpose_grid:
  assumes "0 < m"
  shows "np_transpose (grid m n f) = grid n m (\<lambda>i j. f j i)"
proof -
  have "map (\<lambda>r. r ! j) (grid m n f) = map (\<lambda>i. f i j) [0..<m]" if "j < n" for j
    using that by (simp add: grid_def)
  then show ?thesis
    unfolding np_transpose_def ncols_grid [OF assms]
    by (simp add: grid_def)
qed

lemma gibbs_removal_1d_const_grid:
  assumes mn: "0 < m" "0 < n" and p: "1 \<le> p" "p < (if axis \<noteq> 0 then int n else int m)"
  shows "gibbs_removal_1d (grid m n (\<lambda>_ _. c)) axis p = Inr (grid m n (\<lambda>_ _. c))"
proof (cases "axis = 0")
  case False
  with p have p': "p < int n" by simp
  show ?thesis
    using False
    by (simp add: gibbs_removal_1d_def Let_def shift_search_constant [OF mn(1) p(1) p']
        interpolate_keep [of _ m n])
next
  case True
  with p have p': "p < int m" by simp
  show ?thesis
    using True
    by (simp add: gibbs_removal_1d_def Let_def np_transpose_grid [OF mn(1)]
        np_transpose_grid [OF mn(2)] shift_search_constant [OF mn(2) p(1) p']
        interpolate_keep [of _ n m])
qed

lemma ssamp_Cons: "\<exists>s ss. ssamp = s # ss"
proof -
  have "length ssamp = 45" by (simp add: ssamp_def)
  then show ?thesis by (cases ssamp) auto
qed

lemma rect_2_2: "rect 2 2 y \<Longrightarrow> \<exists>a b c d. y = [[a, b], [c, d]]"
  by (auto simp: rect_def numeral_2_eq_2 length_Suc_conv)

lemma min_tv_2x2_eval: "min_tv [[a, b], [c, d]] 3 = Inr [[], []]"
  by code_simp

lemma ssamp_range: "s \<in> set ssamp \<Longrightarrow> 2 / 100 \<le> s \<and> s \<le> 9 / 10"
proof -
  assume "s \<in> set ssamp"
  then obtain i where i: "i < 45" "s = 2 / 100 + real i * ((9 / 10 - 2 / 100) / 44)"
    by (auto simp: ssamp_def linspace_def)
  then have "real i \<le> 44" by simp
  then show ?thesis using i(2) by simp
qed

lemma nonzero2_mem:
  "(i, j) \<in> set (nonzero2 a) \<Longrightarrow> i < length a \<and> j < length (a ! i) \<and> a ! i ! j \<noteq> 0"
  by (auto simp: nonzero2_def)

lemma entries_nth: "entries P a \<Longrightarrow> i < length a \<Longrightarrow> j < length (a ! i) \<Longrightarrow> P (a ! i ! j)"
  by (simp add: entries_def list_all_length)

lemma denominators_pos:
  assumes sp: "entries (\<lambda>v. 0 \<le> v) (sp st)" and sn: "entries (\<lambda>v. 0 \<le> v) (sn st)"
  shows "list_all (\<lambda>d. d \<noteq> 0 \<and> 0 < d) (denominators st)"
proof -
  have den: "denominators st =
      map (\<lambda>(i, j). sp st ! i ! j + sn st ! i ! j) (nonzero2 (shift_sum st))"
    unfolding denominators_def take_idx_def Let_def map2_map_map
    by (simp add: split_def)
  have "0 < sp st ! i ! j + sn st ! i ! j" if ij: "(i, j) \<in> set (nonzero2 (shift_sum st))" for i j
  proof -
    from nonzero2_mem [OF ij] have i0: "i < length (shift_sum st)"
      and j0: "j < length (shift_sum st ! i)" and nz: "shift_sum st ! i ! j \<noteq> 0"
      by simp_all
    from i0 have i: "i < length (sp st)" "i < length (sn st)"
      by (simp_all add: shift_sum_def)
    have row: "shift_sum st ! i = map2 (+) (sp st ! i) (sn st ! i)"
      using i by (simp add: shift_sum_def)
    from j0 have j: "j < length (sp st ! i)" "j < length (sn st ! i)"
      by (simp_all add: row)
    from nz j have "sp st ! i ! j + sn st ! i ! j \<noteq> 0"
      by (simp add: row)
    moreover have "0 \<le> sp st ! i ! j" "0 \<le> sn st ! i ! j"
      using entries_nth [OF sp i(1) j(1)] entries_nth [OF sn i(2) j(2)] by simp_all
    ultimately show ?thesis by linarith
  qed
  then have "d \<noteq> 0 \<and> 0 < d" if "d \<in> set (denominators st)" for d
    using that unfolding den by fastforce
  then show ?thesis
    by (simp add: list_all_iff)
qed

lemma entries_mono: "entries P a \<Longrightarrow> (\<And>v. P v \<Longrightarrow> Q v) \<Longrightarrow> entries Q a"
  by (auto simp: entries_def list_all_iff)

lemma shift_ok_grid: "\<forall>s\<in>set (take j ssamp). shift_ok s"
  using ssamp_range by (auto simp: shift_ok_def dest: in_set_takeD)

lemma grid_1_2: "grid (Suc 0) 2 (\<lambda>_ _. c) = [[c, c]]"
  by (simp add: grid_def numeral_2_eq_2)

section \<open>Lemmas: the weights of square and of other slices\<close>


lemma length_pyslice_inner [simp]: "length (pyslice xs 1 (- 1)) = length xs - 2"
  by (auto simp: pyslice_def clip_index_def Let_def)

lemma nth_pyslice_inner: "i < length xs - 2 \<Longrightarrow> pyslice xs 1 (- 1) ! i = xs ! Suc i"
  by (auto simp: pyslice_def clip_index_def Let_def)

lemma slice_range_inner: "slice_range 1 (- 1) n = [1..<n - 1]"
  by (cases n) (auto simp: slice_range_def clip_index_def nat_diff_distrib)

lemma rect_map2:
  assumes a: "rect m n a" and b: "rect m n b"
  shows "rect m n (map2 (map2 f) a b)"
proof -
  have "map2 (map2 f) a b =
        map2 (map2 f) (grid m n (\<lambda>i j. a ! i ! j)) (grid m n (\<lambda>i j. b ! i ! j))"
    using rect_is_grid [OF a] rect_is_grid [OF b]
    by (rule arg_cong2 [where f = "\<lambda>x y. map2 (map2 f) x y"])
  then show ?thesis by (simp add: map2_grid)
qed

lemma set_block_refused:
  "ncols v \<noteq> length cs \<Longrightarrow> ncols v \<noteq> 1 \<Longrightarrow> set_block a rs cs v = Inl ValueError"
  by (simp add: set_block_def)

lemma weights_nonsquare:
  assumes m: "3 < m" and n: "n \<noteq> m"
  shows "weights (m, n) = Inl ValueError"
proof -
  define ki where "ki = pyslice (linspace (- pi) pi m) 1 (- 1)"
  define q where "q = m - 2"
  have q: "length ki = q" "1 < q"
    using m by (simp_all add: ki_def q_def)
  define c0 where "c0 = map (map (\<lambda>t. 1 + cos t)) (map (\<lambda>a. map (\<lambda>_. a) ki) ki)"
  define c1 where "c1 = map (map (\<lambda>t. 1 + cos t)) (map (\<lambda>_. ki) ki)"
  have r: "rect q q c0" "rect q q c1"
    using q by (simp_all add: c0_def c1_def rect_def list_all_iff)
  have nc: "ncols (map2 (map2 (/)) c0 (map2 (map2 (+)) c0 c1)) = q"
    using rect_ncols [OF rect_map2 [OF r(1) rect_map2 [OF r]]] q by simp
  have "q \<noteq> n - 2" using m n by (auto simp: q_def)
  then have "set_block (replicate m (replicate n 0)) (slice_range 1 (- 1) m) (slice_range 1 (- 1) n)
          (map2 (map2 (/)) c0 (map2 (map2 (+)) c0 c1)) = Inl ValueError"
    using q by (intro set_block_refused) (simp_all add: nc slice_range_inner)
  then show ?thesis
    unfolding weights_def Let_def prod.case ki_def [symmetric] c0_def [symmetric]
      c1_def [symmetric]
    by simp
qed

lemma map_by_index: "length xs = q \<Longrightarrow> map f xs = map (\<lambda>i. f (xs ! i)) [0..<q]"
  by (auto intro!: nth_equalityI)

lemma fill_grid:
  "fill (grid m n f) rs cs v = grid m n (\<lambda>i j. if i \<in> set rs \<and> j \<in> set cs then v else f i j)"
  by (simp add: fill_def grid_def)

lemma ncols_grid_square: "ncols (grid q q V) = q"
  by (cases q) (simp_all add: ncols_def grid_def upt_conv_Cons del: upt_Suc)

lemma stretch_id: "length xs = n \<Longrightarrow> stretch n xs = xs"
  by (simp add: stretch_def)

lemma set_block_grid:
  "set_block (grid n n f) [1..<n - 1] [1..<n - 1] (grid (n - 2) (n - 2) V) =
     Inr (grid n n (\<lambda>i j. if inner n i \<and> inner n j then V (i - 1) (j - 1) else f i j))"
proof -
  have st: "map (stretch (length [1..<n - 1])) (stretch (length [1..<n - 1]) (grid (n - 2) (n - 2) V))
      = grid (n - 2) (n - 2) V"
    by (simp add: stretch_def grid_def)
  have l: "length [1..<n - 1] = n - 2"
    by (simp add: numeral_2_eq_2)
  have cond: "(length (grid (n - 2) (n - 2) V) = length [1..<n - 1] \<or>
               length (grid (n - 2) (n - 2) V) = 1) \<and>
              (ncols (grid (n - 2) (n - 2) V) = length [1..<n - 1] \<or>
               ncols (grid (n - 2) (n - 2) V) = 1)"
    unfolding l length_grid ncols_grid_square by simp
  have G: "grid n n (\<lambda>i j. if inner n i \<and> inner n j then V (i - 1) (j - 1) else f i j) =
           map (\<lambda>i. map (\<lambda>j. if inner n i \<and> inner n j then V (i - 1) (j - 1) else f i j) [0..<n])
             [0..<n]"
    by (simp add: grid_def)
  have len: "length (grid n n f) = n"
    by (simp add: grid_def)
  have hd: "hd [1..<n - 1] = 1" if "inner n i" for i
    using that by (simp add: inner_def upt_conv_Cons)
  have "(if i \<in> set [1..<n - 1]
         then map (\<lambda>j. if j \<in> set [1..<n - 1]
                then grid (n - 2) (n - 2) V ! (i - hd [1..<n - 1]) ! (j - hd [1..<n - 1])
                else grid n n f ! i ! j) [0..<length (grid n n f ! i)]
         else grid n n f ! i) =
        map (\<lambda>j. if inner n i \<and> inner n j then V (i - 1) (j - 1) else f i j) [0..<n]"
    if i: "i < n" for i
  proof (cases "inner n i")
    case True
    then have "grid (n - 2) (n - 2) V ! (i - 1) ! (j - 1) = V (i - 1) (j - 1)" if "inner n j" for j
      using that by (intro grid_nth) (auto simp: inner_def)
    then show ?thesis
      using True i hd [OF True] by (auto simp: grid_def inner_def)
  next
    case False
    then show ?thesis
      using i by (auto simp: grid_def inner_def)
  qed
  then show ?thesis
    unfolding set_block_def Let_def if_P [OF cond] st len G
    by (intro arg_cong [where f = Inr] map_cong [OF refl]) simp
qed

lemma int_index_first: "0 < n \<Longrightarrow> int_index 0 n = Inr 0"
  by (simp add: int_index_def)

lemma int_index_last: "0 < n \<Longrightarrow> int_index (- 1) n = Inr (n - 1)"
proof -
  assume n: "0 < n"
  have "(- 1) mod int n = int n - 1"
    using n by (simp add: zmod_minus1)
  then show ?thesis
    using n by (simp add: int_index_def nat_diff_distrib)
qed

lemma weights_square:
  assumes n: "0 < n"
  shows "weights (n, n) = Inr (grid n n (W0 n), grid n n (W1 n))"
proof -
  define q where "q = n - 2"
  define ki where "ki = pyslice (linspace (- pi) pi n) 1 (- 1)"
  have lk: "length ki = q" by (simp add: ki_def q_def)
  have ki: "1 + cos (ki ! i) = taper n (Suc i)" if "i < q" for i
    using that by (simp add: ki_def q_def taper_def nth_pyslice_inner)
  have kg: "map (\<lambda>t. 1 + cos t) ki = map (\<lambda>j. taper n (Suc j)) [0..<q]"
    by (rule nth_equalityI) (simp_all add: lk ki)
  have c0: "map (map (\<lambda>t. 1 + cos t)) (map (\<lambda>a. map (\<lambda>_. a) ki) ki) = grid q q (\<lambda>i j. taper n (Suc i))"
    unfolding grid_def
    by (rule nth_equalityI) (simp_all add: lk ki map_replicate_const)
  have c1: "map (map (\<lambda>t. 1 + cos t)) (map (\<lambda>_. ki) ki) = grid q q (\<lambda>i j. taper n (Suc j))"
    unfolding grid_def
    by (rule nth_equalityI) (simp_all add: lk kg)
  have z: "replicate n (replicate n (0::real)) = grid n n (\<lambda>_ _. 0)"
    by (rule replicate_grid)
  have in0: "\<not> inner n 0" "\<not> inner n (n - 1)"
    by (simp_all add: inner_def)
  have mid: "i \<in> set [1..<n - 1] \<longleftrightarrow> inner n i" for i
    by (auto simp: inner_def)
  have suc: "Suc (i - 1) = i" if "inner n i" for i
    using that by (simp add: inner_def)
  have half: "\<not> inner n i \<Longrightarrow> i < n \<Longrightarrow> i = 0 \<or> i = n - 1" for i
    by (auto simp: inner_def)
  have ne: "inner n i \<Longrightarrow> i \<noteq> 0 \<and> i \<noteq> n - 1" for i
    by (auto simp: inner_def)
  show ?thesis
    unfolding weights_def Let_def prod.case ki_def [symmetric] c0 c1 z slice_range_inner
      map2_grid q_def set_block_grid bindE_Inr int_index_first [OF n] int_index_last [OF n]
      fill_grid mid
  proof (intro arg_cong [where f = Inr] arg_cong2 [where f = Pair] grid_cong, goal_cases)
    case (1 i j)
    show ?case
    proof (cases "inner n i")
      case i: True
      show ?thesis
      proof (cases "inner n j")
        case True
        with i ne [of i] ne [of j] show ?thesis by (simp add: W0_def suc)
      next
        case False
        with i ne [of i] half [OF False 1(2)] show ?thesis by (auto simp: W0_def)
      qed
    next
      case i: False
      show ?thesis
      proof (cases "inner n j")
        case True
        with i ne [of j] half [OF i 1(1)] show ?thesis by (auto simp: W0_def)
      next
        case False
        with i half [OF i 1(1)] half [OF False 1(2)] show ?thesis by (auto simp: W0_def)
      qed
    qed
  next
    case (2 i j)
    show ?case
    proof (cases "inner n i")
      case i: True
      show ?thesis
      proof (cases "inner n j")
        case True
        with i ne [of i] ne [of j] show ?thesis by (simp add: W1_def suc)
      next
        case False
        with i ne [of i] half [OF False 2(2)] show ?thesis by (auto simp: W1_def)
      qed
    next
      case i: False
      show ?thesis
      proof (cases "inner n j")
        case True
        with i ne [of j] half [OF i 2(1)] show ?thesis by (auto simp: W1_def)
      next
        case False
        with i half [OF i 2(1)] half [OF False 2(2)] show ?thesis by (auto simp: W1_def)
      qed
    qed
  qed
qed

section \<open>Lemmas: complementary weights and the shape of a corrected slice\<close>


lemma cos_gt_minus_one:
  fixes t :: real
  assumes "\<bar>t\<bar> < pi"
  shows "- 1 < cos t"
proof -
  have "cos pi < cos \<bar>t\<bar>"
    using assms by (intro cos_monotone_0_pi) simp_all
  then show ?thesis by simp
qed

lemma taper_pos:
  assumes "inner n i"
  shows "0 < taper n i"
proof -
  from assms have i: "1 \<le> i" "i < n - 1" and n: "n \<noteq> 1" "i < n"
    by (auto simp: inner_def)
  define d where "d = real i * (2 * pi / real (n - 1))"
  have t: "linspace (- pi) pi n ! i = - pi + d"
    using n by (simp add: linspace_def d_def)
  have "0 < d"
    using i by (simp add: d_def)
  moreover have "d < 2 * pi"
  proof -
    have "real i / real (n - 1) < 1" using i by simp
    then have "real i / real (n - 1) * (2 * pi) < 1 * (2 * pi)"
      by (intro mult_strict_right_mono) simp_all
    then show ?thesis by (simp add: field_simps d_def)
  qed
  ultimately have "\<bar>linspace (- pi) pi n ! i\<bar> < pi"
    unfolding t by linarith
  from cos_gt_minus_one [OF this] show ?thesis
    by (simp add: taper_def)
qed

lemma weights_complementary:
  "W0 n i j + W1 n i j = 1 \<and> 0 \<le> W0 n i j \<and> W0 n i j \<le> 1 \<and> 0 \<le> W1 n i j \<and> W1 n i j \<le> 1"
proof (cases "inner n i \<and> inner n j")
  case True
  then have a: "0 < taper n i" and b: "0 < taper n j"
    by (simp_all add: taper_pos)
  then have s: "0 < taper n i + taper n j" by simp
  have "taper n j / (taper n i + taper n j) + taper n i / (taper n i + taper n j) = 1"
    using s by (simp add: add_divide_distrib [symmetric])
  moreover have "taper n j / (taper n i + taper n j) \<le> 1" "taper n i / (taper n i + taper n j) \<le> 1"
    using a b s by (simp_all add: divide_le_eq_1)
  moreover have "0 \<le> taper n j / (taper n i + taper n j)" "0 \<le> taper n i / (taper n i + taper n j)"
    using a b by simp_all
  ultimately show ?thesis
    using True by (simp add: W0_def W1_def)
next
  case False
  then show ?thesis
    by (auto simp: W0_def W1_def)
qed

text \<open>The corrector and the combiner keep the shape of the slice.\<close>

lemma rect_iff: "rect m n a \<longleftrightarrow> map length a = replicate m n"
proof
  assume "rect m n a"
  then show "map length a = replicate m n" by (rule map_length_rect)
next
  assume h: "map length a = replicate m n"
  then have "length (map length a) = m" by simp
  moreover have "\<forall>r\<in>set a. length r = n"
  proof
    fix r assume "r \<in> set a"
    then have "length r \<in> set (map length a)" by simp
    then show "length r = n" unfolding h by simp
  qed
  ultimately show "rect m n a" by (simp add: rect_def list_all_iff)
qed

lemma map_length_update: "map length (b[i := (b ! i)[j := v]]) = map length b"
proof (cases "i < length b")
  case True
  then show ?thesis
    by (intro nth_equalityI) (auto simp: nth_list_update)
next
  case False
  then have "b[i := (b ! i)[j := v]] = b"
    by (intro list_update_beyond) simp
  then show ?thesis by simp
qed

lemma map_length_put_idx: "map length (put_idx a idx vals) = map length a"
proof -
  have "map length (fold (\<lambda>((i, j), v) b. b[i := (b ! i)[j := v]]) zs a) = map length a" for zs
    by (induction zs arbitrary: a) (simp_all add: split_def map_length_update)
  then show ?thesis by (simp add: put_idx_def)
qed

lemma rect_interpolate: "rect m n xs \<Longrightarrow> rect m n (interpolate xs st)"
  by (simp add: rect_iff interpolate_def Let_def map_length_put_idx)

lemma rect_np_transpose:
  assumes "rect m n x" "0 < m"
  shows "rect n m (np_transpose x)"
proof -
  have "np_transpose x = np_transpose (grid m n (\<lambda>i j. x ! i ! j))"
    using rect_is_grid [OF assms(1)] by (rule arg_cong)
  then show ?thesis
    by (simp add: np_transpose_grid [OF assms(2)])
qed

lemma gibbs_removal_1d_rect:
  assumes y: "gibbs_removal_1d x axis p = Inr y" and x: "rect m n x" and mn: "0 < m" "0 < n"
  shows "rect m n y"
proof (cases "axis = 0")
  case False
  with y obtain st where "y = interpolate x st"
    by (auto simp: gibbs_removal_1d_def Let_def bindE_eq_Inr)
  then show ?thesis using x by (simp add: rect_interpolate)
next
  case True
  with y obtain st where st: "y = np_transpose (interpolate (np_transpose x) st)"
    by (auto simp: gibbs_removal_1d_def Let_def bindE_eq_Inr)
  have "rect n m (interpolate (np_transpose x) st)"
    by (rule rect_interpolate [OF rect_np_transpose [OF x mn(1)]])
  from rect_np_transpose [OF this mn(2)] show ?thesis
    by (simp add: st)
qed

lemma fft2_shape:
  assumes "fft2 x = Inr c" "rect m n x" "0 < m" "0 < n"
  shows "rect m n c"
  using fft2_rect [OF assms(2-4)] assms(1) by auto

lemma ifft2_shape:
  assumes "ifft2 x = Inr c" "rect m n x" "0 < m" "0 < n"
  shows "rect m n c"
  using ifft2_rect [OF assms(2-4)] assms(1) by auto

lemma ew2_shape:
  assumes "rect m n a" "rect m n b"
  shows "\<exists>c. ew2 f a b = Inr c \<and> rect m n c"
  using ew2_rect [OF assms, of f] rect_map2 [OF assms, of f] by simp

lemma gibbs_removal_2d_given:
  "gibbs_removal_2d ver img p (Some G0) (Some G1) =
     bindE (gibbs_removal_1d img 1 p) (\<lambda>img_c1.
     bindE (gibbs_removal_1d img 0 p) (\<lambda>img_c0.
     bindE (fft2 (map (map of_real) img_c1)) (\<lambda>C1.
     bindE (fft2 (map (map of_real) img_c0)) (\<lambda>C0.
     bindE (ew2 (*) (fftshift C1) (map (map of_real) G1)) (\<lambda>A.
     bindE (ew2 (*) (fftshift C0) (map (map of_real) G0)) (\<lambda>B.
     bindE (ew2 (+) A B) (\<lambda>S.
     bindE (ifft2 S) (\<lambda>y. Inr (map (map cmod) y)))))))))"
  by (simp add: gibbs_removal_2d_def any_is_None_def times_weights_def)

lemma gibbs_removal_2d_rect:
  assumes y: "gibbs_removal_2d ver img p (Some G0) (Some G1) = Inr y"
    and r: "rect m n img" "rect m n G0" "rect m n G1" and mn: "0 < m" "0 < n"
  shows "rect m n y"
proof -
  from y obtain c1 c0 C1 C0 A B S z where
    c1: "gibbs_removal_1d img 1 p = Inr c1" and c0: "gibbs_removal_1d img 0 p = Inr c0"
    and C1: "fft2 (map (map of_real) c1) = Inr C1" and C0: "fft2 (map (map of_real) c0) = Inr C0"
    and A: "ew2 (*) (fftshift C1) (map (map of_real) G1) = Inr A"
    and B: "ew2 (*) (fftshift C0) (map (map of_real) G0) = Inr B"
    and S: "ew2 (+) A B = Inr S" and z: "ifft2 S = Inr z" and yz: "y = map (map cmod) z"
    unfolding gibbs_removal_2d_given by (auto simp: bindE_eq_Inr)
  have rC1: "rect m n C1"
    by (rule fft2_shape [OF C1 rect_map_map [OF gibbs_removal_1d_rect [OF c1 r(1) mn]] mn])
  have rC0: "rect m n C0"
    by (rule fft2_shape [OF C0 rect_map_map [OF gibbs_removal_1d_rect [OF c0 r(1) mn]] mn])
  have rA: "rect m n A"
    using ew2_shape [OF rect_fftshift [OF rC1] rect_map_map [OF r(3)], of "(*)" of_real] A by auto
  have rB: "rect m n B"
    using ew2_shape [OF rect_fftshift [OF rC0] rect_map_map [OF r(2)], of "(*)" of_real] B by auto
  have rS: "rect m n S"
    using ew2_shape [OF rA rB, of "(+)"] S by auto
  show ?thesis
    unfolding yz by (rule rect_map_map [OF ifft2_shape [OF z rS mn]])
qed

lemma gibbs_removal_2d_constant:
  assumes mn: "0 < m" "0 < n" and p: "1 \<le> p" "p < int n" "p < int m"
    and g: "rect m n G0" "rect m n G1"
  shows "\<exists>y. gibbs_removal_2d ver (grid m n (\<lambda>_ _. c)) p (Some G0) (Some G1) = Inr y \<and> rect m n y"
proof -
  let ?x = "grid m n (\<lambda>_ _. c)"
  have c1: "gibbs_removal_1d ?x 1 p = Inr ?x" "gibbs_removal_1d ?x 0 p = Inr ?x"
    using gibbs_removal_1d_const_grid [OF mn p(1), of 1 c]
      gibbs_removal_1d_const_grid [OF mn p(1), of 0 c] p by simp_all
  obtain C where C: "fft2 (map (map of_real) ?x) = Inr C" "rect m n C"
    using fft2_rect [OF rect_map_map [OF rect_grid] mn] by blast
  obtain A where A: "ew2 (*) (fftshift C) (map (map of_real) G1) = Inr A" "rect m n A"
    using ew2_shape [OF rect_fftshift [OF C(2)] rect_map_map [OF g(2)]] by blast
  obtain B where B: "ew2 (*) (fftshift C) (map (map of_real) G0) = Inr B" "rect m n B"
    using ew2_shape [OF rect_fftshift [OF C(2)] rect_map_map [OF g(1)]] by blast
  obtain S where S: "ew2 (+) A B = Inr S" "rect m n S"
    using ew2_shape [OF A(2) B(2)] by blast
  obtain z where z: "ifft2 S = Inr z" "rect m n z"
    using ifft2_rect [OF S(2) mn] by blast
  show ?thesis
    unfolding gibbs_removal_2d_given
    by (simp add: c1 C(1) A(1) B(1) S(1) z(1) rect_map_map [OF z(2)])
qed

text \<open>Weights that are returned have the shape they were asked for.\<close>

lemma map_length_fill: "map length (fill a rs cs v) = map length a"
  by (rule nth_equalityI) (simp_all add: fill_def)

lemma map_length_set_block: "set_block a rs cs v = Inr b \<Longrightarrow> map length b = map length a"
  by (rule nth_equalityI) (auto simp: set_block_def Let_def split: if_splits)

lemma int_index_pos: "int_index i n = Inr k \<Longrightarrow> 0 < n"
  by (cases n) (simp_all add: int_index_def split: if_splits)

lemma weights_shape:
  assumes "weights (m, n) = Inr (G0, G1)"
  shows "rect m n G0 \<and> rect m n G1 \<and> 0 < m \<and> 0 < n"
proof -
  from assms obtain A1 A0 c0 cl r0 rl where
    A1: "set_block (replicate m (replicate n 0)) (slice_range 1 (- 1) m) (slice_range 1 (- 1) n)
          (map2 (map2 (/))
            (map (map (\<lambda>t. 1 + cos t)) (map (\<lambda>a. map (\<lambda>_. a) (pyslice (linspace (- pi) pi m) 1 (- 1))) (pyslice (linspace (- pi) pi m) 1 (- 1))))
            (map2 (map2 (+))
              (map (map (\<lambda>t. 1 + cos t)) (map (\<lambda>a. map (\<lambda>_. a) (pyslice (linspace (- pi) pi m) 1 (- 1))) (pyslice (linspace (- pi) pi m) 1 (- 1))))
              (map (map (\<lambda>t. 1 + cos t)) (map (\<lambda>_. pyslice (linspace (- pi) pi m) 1 (- 1)) (pyslice (linspace (- pi) pi m) 1 (- 1)))))) = Inr A1"
    and A0: "set_block (replicate m (replicate n 0)) (slice_range 1 (- 1) m) (slice_range 1 (- 1) n)
          (map2 (map2 (/))
            (map (map (\<lambda>t. 1 + cos t)) (map (\<lambda>_. pyslice (linspace (- pi) pi m) 1 (- 1)) (pyslice (linspace (- pi) pi m) 1 (- 1))))
            (map2 (map2 (+))
              (map (map (\<lambda>t. 1 + cos t)) (map (\<lambda>a. map (\<lambda>_. a) (pyslice (linspace (- pi) pi m) 1 (- 1))) (pyslice (linspace (- pi) pi m) 1 (- 1))))
              (map (map (\<lambda>t. 1 + cos t)) (map (\<lambda>_. pyslice (linspace (- pi) pi m) 1 (- 1)) (pyslice (linspace (- pi) pi m) 1 (- 1)))))) = Inr A0"
    and ix: "int_index 0 n = Inr c0" "int_index (- 1) n = Inr cl" "int_index 0 m = Inr r0"
      "int_index (- 1) m = Inr rl"
    and G1: "G1 = fill (fill (fill (fill (fill (fill A1 (slice_range 1 (- 1) m) [c0] 1)
                 (slice_range 1 (- 1) m) [cl] 1) [r0] [c0] (1 / 2)) [rl] [cl] (1 / 2))
                 [r0] [cl] (1 / 2)) [rl] [c0] (1 / 2)"
    and G0: "G0 = fill (fill (fill (fill (fill (fill A0 [r0] (slice_range 1 (- 1) n) 1)
                 [rl] (slice_range 1 (- 1) n) 1) [r0] [c0] (1 / 2)) [rl] [cl] (1 / 2))
                 [r0] [cl] (1 / 2)) [rl] [c0] (1 / 2)"
    unfolding weights_def Let_def prod.case bindE_eq_Inr by blast
  have "map length G1 = replicate m n"
    unfolding G1 map_length_fill map_length_set_block [OF A1] by simp
  moreover have "map length G0 = replicate m n"
    unfolding G0 map_length_fill map_length_set_block [OF A0] by simp
  ultimately show ?thesis
    using int_index_pos [OF ix(1)] int_index_pos [OF ix(3)] by (simp add: rect_iff)
qed

section \<open>Lemmas: the volume dispatcher\<close>

lemma swap_entries_twice:
  "i < length xs \<Longrightarrow> j < length xs \<Longrightarrow> swap_entries i j (swap_entries i j xs) = xs"
  by (rule nth_equalityI) (auto simp: swap_entries_def nth_list_update)

lemma length_swap_entries [simp]: "length (swap_entries i j xs) = length xs"
  by (simp add: swap_entries_def)

lemma swapaxes_Inr:
  assumes "swapaxes v a b = Inr w"
  shows "shape w = swap_entries (nat (a mod int (ndim v))) (nat (b mod int (ndim v))) (shape v)
         \<and> ndim w = ndim v \<and> - int (ndim v) \<le> a \<and> a < int (ndim v)
         \<and> - int (ndim v) \<le> b \<and> b < int (ndim v)"
  using assms by (auto simp: swapaxes_def Let_def ndim_def split: if_splits)

lemma reshape_Inr: "reshape v sh = Inr w \<Longrightarrow> shape w = sh"
  by (auto simp: reshape_def split: if_splits)

lemma set_slice_shape: "set_slice v vi img = Inr w \<Longrightarrow> shape w = shape v"
  by (auto simp: set_slice_def Let_def split: if_splits)

lemma slice_loop_shape: "slice_loop ver v p G0 G1 vis = Inr w \<Longrightarrow> shape w = shape v"
proof (induction vis arbitrary: v)
  case Nil
  then show ?case by simp
next
  case (Cons vi vis)
  from Cons.prems obtain img v' where
    "set_slice v vi img = Inr v'" "slice_loop ver v' p G0 G1 vis = Inr w"
    by (auto simp: bindE_eq_Inr)
  then show ?case
    using Cons.IH [of v'] set_slice_shape [of v vi img v'] by simp
qed

lemma rect_to_rows: "rect (shape v ! 0) (shape v ! 1) (to_rows v)"
  by (simp add: to_rows_def rect_def list_all_iff)

lemma list_of_length_2: "length xs = 2 \<Longrightarrow> xs = [xs ! 0, xs ! 1]"
  by (auto simp: numeral_2_eq_2 length_Suc_conv)

lemma run_slices_shape:
  assumes r: "run_slices ver v nd p = Inr w" and nd: "nd = 2 \<Longrightarrow> ndim v = 2"
  shows "shape w = shape v"
proof -
  from r obtain G0 G1 where G: "weights (shape v ! 0, shape v ! 1) = Inr (G0, G1)"
    and w: "(if nd = 2
             then bindE (gibbs_removal_2d ver (to_rows v) p (Some G0) (Some G1)) (\<lambda>img. Inr (of_rows img))
             else slice_loop ver v p G0 G1 [0..<shape v ! 2]) = Inr w"
    by (auto simp: run_slices_def Let_def bindE_eq_Inr)
  show ?thesis
  proof (cases "nd = 2")
    case False
    with w show ?thesis by (simp add: slice_loop_shape)
  next
    case True
    with w obtain img where img: "gibbs_removal_2d ver (to_rows v) p (Some G0) (Some G1) = Inr img"
      and wi: "w = of_rows img"
      by (auto simp: bindE_eq_Inr)
    from weights_shape [OF G] have g: "rect (shape v ! 0) (shape v ! 1) G0"
      "rect (shape v ! 0) (shape v ! 1) G1" "0 < shape v ! 0" "0 < shape v ! 1"
      by simp_all
    have ri: "rect (shape v ! 0) (shape v ! 1) img"
      by (rule gibbs_removal_2d_rect [OF img rect_to_rows g])
    then have "length img = shape v ! 0" "ncols img = shape v ! 1"
      using rect_ncols [OF ri g(3)] by (simp_all add: rect_def)
    moreover have "shape v = [shape v ! 0, shape v ! 1]"
      using nd [OF True] by (intro list_of_length_2) (simp add: ndim_def)
    ultimately show ?thesis
      by (simp add: wi of_rows_def)
  qed
qed

lemma gibbs_removal_Inr:
  assumes "gibbs_removal ver vol slice_axis n_points = Inr r"
  shows "shape r = shape vol \<and> ndim vol \<in> {2, 3, 4} \<and> slice_axis \<le> 2 \<and>
         (slice_axis < 2 \<longrightarrow> 2 < ndim vol)"
proof -
  let ?nd = "ndim vol"
  from assms obtain vol1 vol2 vol3 vol4 where
    v1: "(if slice_axis > 2 then Inl ValueError
          else if slice_axis < 2 \<and> ?nd > 2 then swapaxes vol slice_axis 2
          else Inr vol) = Inr vol1"
    and v2: "(if ?nd = 4
              then reshape vol1 [shape vol1 ! 0, shape vol1 ! 1, shape vol1 ! 2 * shape vol1 ! 3]
              else if ?nd > 4 then Inl ValueError
              else if ?nd < 2 then Inl ValueError
              else Inr vol1) = Inr vol2"
    and v3: "run_slices ver vol2 ?nd n_points = Inr vol3"
    and v4: "(if ?nd = 4 then reshape vol3 (shape vol1) else Inr vol3) = Inr vol4"
    and v5: "(if slice_axis < 2 then swapaxes vol4 slice_axis 2 else Inr vol4) = Inr r"
    unfolding gibbs_removal_def Let_def bindE_eq_Inr by blast
  from v1 have sa: "slice_axis \<le> 2" by (simp split: if_splits)
  from v2 have nd: "?nd \<in> {2, 3, 4}" by (auto split: if_splits)
  have n1: "ndim vol1 = ?nd"
    using v1 by (auto split: if_splits dest: swapaxes_Inr)
  have nd2: "ndim vol2 = 2" if "?nd = 2"
    using that v2 n1 by simp
  have s3: "shape vol3 = shape vol2"
    by (rule run_slices_shape [OF v3 nd2])
  have s4: "shape vol4 = shape vol1"
    using v2 v4 s3 nd by (auto split: if_splits dest: reshape_Inr)
  have "shape r = shape vol \<and> (slice_axis < 2 \<longrightarrow> 2 < ndim vol)"
  proof (cases "slice_axis < 2")
    case False
    with v1 v5 sa s4 show ?thesis by (simp split: if_splits)
  next
    case True
    with v5 have sw: "swapaxes vol4 slice_axis 2 = Inr r" by simp
    have n4: "ndim vol4 = ?nd" using s4 n1 by (simp add: ndim_def)
    from swapaxes_Inr [OF sw] have big: "2 < ?nd" and
      sr: "shape r = swap_entries (nat (slice_axis mod int ?nd)) (nat (2 mod int ?nd)) (shape vol4)"
      and lo: "- int ?nd \<le> slice_axis"
      by (simp_all add: n4)
    with v1 True have "swapaxes vol slice_axis 2 = Inr vol1" by simp
    from swapaxes_Inr [OF this] have
      s1: "shape vol1 = swap_entries (nat (slice_axis mod int ?nd)) (nat (2 mod int ?nd)) (shape vol)"
      by simp
    have "0 \<le> slice_axis mod int ?nd" "slice_axis mod int ?nd < int ?nd"
      using big by simp_all
    then have "nat (slice_axis mod int ?nd) < ?nd" by linarith
    moreover have "nat (2 mod int ?nd) < ?nd"
      using big by simp
    ultimately have "nat (slice_axis mod int ?nd) < length (shape vol)"
      "nat (2 mod int ?nd) < length (shape vol)"
      by (simp_all add: ndim_def)
    then have "shape r = shape vol"
      unfolding sr s4 s1 by (rule swap_entries_twice)
    with big show ?thesis by simp
  qed
  with sa nd show ?thesis by simp
qed

lemma gibbs_removal_rejects:
  assumes "slice_axis > 2 \<or> ndim vol > 4 \<or> ndim vol < 2"
  shows "\<exists>e. gibbs_removal ver vol slice_axis n_points = Inl e"
proof (cases "gibbs_removal ver vol slice_axis n_points")
  case (Inl e)
  then show ?thesis by simp
next
  case (Inr r)
  from gibbs_removal_Inr [OF this] assms show ?thesis by auto
qed

lemma gibbs_removal_rank2_axis:
  assumes "ndim vol = 2" "slice_axis < 2"
  shows "\<exists>e. gibbs_removal ver vol slice_axis n_points = Inl e"
proof (cases "gibbs_removal ver vol slice_axis n_points")
  case (Inl e)
  then show ?thesis by simp
next
  case (Inr r)
  from gibbs_removal_Inr [OF this] assms show ?thesis by auto
qed

lemma ndim_swapaxes: "swapaxes v a b = Inr w \<Longrightarrow> ndim w = ndim v"
  by (simp add: swapaxes_Inr)

lemma to_rows_constant:
  "to_rows \<lparr>shape = [m, n], data = replicate (m * n) c\<rparr> = grid m n (\<lambda>_ _. c)"
proof -
  have "i * n + j < m * n" if "i < m" "j < n" for i j
  proof -
    have "i * n + j < i * n + n" using that by simp
    also have "\<dots> = Suc i * n" by simp
    also have "\<dots> \<le> m * n" using that by (intro mult_le_mono1) simp
    finally show ?thesis .
  qed
  then show ?thesis
    by (simp add: to_rows_def grid_def)
qed

lemma run_slices_constant_2d:
  assumes m: "0 < m" and p: "1 \<le> p" "p < int m"
  shows "\<exists>y. run_slices ver \<lparr>shape = [m, m], data = replicate (m * m) c\<rparr> 2 p = Inr (of_rows y)
             \<and> rect m m y"
proof -
  obtain y where y: "gibbs_removal_2d ver (grid m m (\<lambda>_ _. c)) p (Some (grid m m (W0 m)))
      (Some (grid m m (W1 m))) = Inr y" "rect m m y"
    using gibbs_removal_2d_constant [OF m m p(1) p(2) p(2) rect_grid rect_grid] by blast
  then show ?thesis
    by (intro exI [of _ y]) (simp add: run_slices_def weights_square [OF m] to_rows_constant)
qed

section \<open>Lemmas: the search and the correctors return\<close>

text \<open>
  On an array with at least one row whose corrected axis is longer than \<open>n_points\<close>, every
  array of the search has the shape of the input, so no index is refused.
\<close>

lemma update_shift_rect:
  assumes "rect m n img" "rect m n tvs" "rect m n im" "rect m n sh" "rect m n tv"
  shows "\<exists>im' sh' tv'. update_shift s img tvs (im, sh, tv) = Inr (im', sh', tv') \<and>
           rect m n im' \<and> rect m n sh' \<and> rect m n tv'"
proof -
  have "\<exists>im' sh' tv'.
      update_shift s (grid m n (\<lambda>i j. img ! i ! j)) (grid m n (\<lambda>i j. tvs ! i ! j))
        (grid m n (\<lambda>i j. im ! i ! j), grid m n (\<lambda>i j. sh ! i ! j), grid m n (\<lambda>i j. tv ! i ! j)) =
      Inr (im', sh', tv') \<and> rect m n im' \<and> rect m n sh' \<and> rect m n tv'"
    unfolding update_shift_grid by simp
  then show ?thesis
    unfolding rect_is_grid [OF assms(1), symmetric] rect_is_grid [OF assms(2), symmetric]
      rect_is_grid [OF assms(3), symmetric] rect_is_grid [OF assms(4), symmetric]
      rect_is_grid [OF assms(5), symmetric] .
qed

lemma search_step_total:
  assumes c: "rect m n c" and k: "length k = n" and m: "0 < m" and p: "1 \<le> p" "p < int n"
    and st: "rect_state m n st"
  shows "\<exists>st'. search_step c k p s st = Inr st' \<and> rect_state m n st'"
proof -
  have n: "0 < n" using p by simp
  obtain ip where ip: "shifted_image c k s = Inr ip" "rect m n ip"
    using shifted_image_rect [OF c k m n] by blast
  have k': "length (map uminus k) = n" using k by simp
  obtain im where im: "shifted_image c (map uminus k) s = Inr im" "rect m n im"
    using shifted_image_rect [OF c k' m n] by blast
  from st have r: "rect m n (isp st)" "rect m n (sp st)" "rect m n (tvp st)"
    "rect m n (isn st)" "rect m n (sn st)" "rect m n (tvn st)"
    by (simp_all add: rect_state_def)
  obtain a1 a2 a3 where a: "update_shift s ip
      (grid m n (\<lambda>i j. min (tv_pos p (ip ! i) (int j)) (tv_neg p (ip ! i) (int j))))
      (isp st, sp st, tvp st) = Inr (a1, a2, a3)" "rect m n a1" "rect m n a2" "rect m n a3"
    using update_shift_rect [OF ip(2) rect_grid r(1) r(2) r(3)] by blast
  obtain b1 b2 b3 where b: "update_shift s im
      (grid m n (\<lambda>i j. min (tv_pos p (im ! i) (int j)) (tv_neg p (im ! i) (int j))))
      (isn st, sn st, tvn st) = Inr (b1, b2, b3)" "rect m n b1" "rect m n b2" "rect m n b3"
    using update_shift_rect [OF im(2) rect_grid r(4) r(5) r(6)] by blast
  show ?thesis
    unfolding search_step_def
    by (simp add: ip(1) im(1) min_tv_grid [OF ip(2) p] min_tv_grid [OF im(2) p] a b
        rect_state_def)
qed

lemma search_loop_total:
  assumes "rect m n c" "length k = n" "0 < m" "1 \<le> p" "p < int n"
  shows "rect_state m n st \<Longrightarrow> \<exists>st'. search_loop c k p ss st = Inr st' \<and> rect_state m n st'"
proof (induction ss arbitrary: st)
  case Nil
  then show ?case by simp
next
  case (Cons s ss)
  from search_step_total [OF assms Cons.prems, of s] obtain st1 where
    "search_step c k p s st = Inr st1" "rect_state m n st1"
    by blast
  with Cons.IH [of st1] show ?case by simp
qed

lemma shift_search_total:
  assumes x: "rect m n xs" and m: "0 < m" and p: "1 \<le> p" "p < int n"
  shows "\<exists>st. shift_search xs p ss = Inr st \<and> rect_state m n st"
proof -
  have n: "0 < n" using p by simp
  obtain c0 where c0: "fft2 (map (map of_real) xs) = Inr c0" "rect m n c0"
    using fft2_rect [OF rect_map_map [OF x] m n] by blast
  have "rect_state m n \<lparr>isp = xs, sp = map (map (\<lambda>_. 0)) xs,
      tvp = grid m n (\<lambda>i j. min (tv_pos p (xs ! i) (int j)) (tv_neg p (xs ! i) (int j))),
      isn = xs, sn = map (map (\<lambda>_. 0)) xs,
      tvn = grid m n (\<lambda>i j. min (tv_pos p (xs ! i) (int j)) (tv_neg p (xs ! i) (int j)))\<rparr>"
    using x by (simp add: rect_state_def rect_map_map)
  from search_loop_total [OF rect_fftshift [OF c0(2)] length_freq_ramp m p this, of ss]
  show ?thesis
    unfolding shift_search_def
    by (simp add: min_tv_grid [OF x p] c0(1) rect_ncols [OF x m] Let_def)
qed

lemma gibbs_removal_1d_total:
  assumes x: "rect m n x" and mn: "0 < m" "0 < n"
    and p: "1 \<le> p" "p < (if axis \<noteq> 0 then int n else int m)"
  shows "\<exists>y. gibbs_removal_1d x axis p = Inr y \<and> rect m n y"
proof -
  have "\<exists>y. gibbs_removal_1d x axis p = Inr y"
  proof (cases "axis = 0")
    case False
    with p have "p < int n" by simp
    from shift_search_total [OF x mn(1) p(1) this, of ssamp] show ?thesis
      using False by (auto simp: gibbs_removal_1d_def Let_def)
  next
    case True
    with p have "p < int m" by simp
    from shift_search_total [OF rect_np_transpose [OF x mn(1)] mn(2) p(1) this, of ssamp]
    show ?thesis
      using True by (auto simp: gibbs_removal_1d_def Let_def)
  qed
  then show ?thesis
    using gibbs_removal_1d_rect [OF _ x mn] by blast
qed

lemma gibbs_removal_2d_total:
  assumes x: "rect m n img" and mn: "0 < m" "0 < n" and p: "1 \<le> p" "p < int n" "p < int m"
    and g: "rect m n G0" "rect m n G1"
  shows "\<exists>y. gibbs_removal_2d ver img p (Some G0) (Some G1) = Inr y \<and> rect m n y"
proof -
  obtain c1 where c1: "gibbs_removal_1d img 1 p = Inr c1" "rect m n c1"
    using gibbs_removal_1d_total [OF x mn p(1), of 1] p by auto
  obtain c0 where c0: "gibbs_removal_1d img 0 p = Inr c0" "rect m n c0"
    using gibbs_removal_1d_total [OF x mn p(1), of 0] p by auto
  obtain C1 where C1: "fft2 (map (map of_real) c1) = Inr C1" "rect m n C1"
    using fft2_rect [OF rect_map_map [OF c1(2)] mn] by blast
  obtain C0 where C0: "fft2 (map (map of_real) c0) = Inr C0" "rect m n C0"
    using fft2_rect [OF rect_map_map [OF c0(2)] mn] by blast
  obtain A where A: "ew2 (*) (fftshift C1) (map (map of_real) G1) = Inr A" "rect m n A"
    using ew2_shape [OF rect_fftshift [OF C1(2)] rect_map_map [OF g(2)]] by blast
  obtain B where B: "ew2 (*) (fftshift C0) (map (map of_real) G0) = Inr B" "rect m n B"
    using ew2_shape [OF rect_fftshift [OF C0(2)] rect_map_map [OF g(1)]] by blast
  obtain S where S: "ew2 (+) A B = Inr S" "rect m n S"
    using ew2_shape [OF A(2) B(2)] by blast
  obtain z where z: "ifft2 S = Inr z" "rect m n z"
    using ifft2_rect [OF S(2) mn] by blast
  show ?thesis
    unfolding gibbs_removal_2d_given
    by (simp add: c1(1) c0(1) C1(1) C0(1) A(1) B(1) S(1) z(1) rect_map_map [OF z(2)])
qed


section \<open>Lemmas: the search on a one-row image with an edge\<close>

text \<open>
  On the image \<open>[[1, 0]]\<close> with \<open>n_points = 1\<close> the baseline TV is 1 at both pixels. A shift
  \<open>s\<close> moves the two samples to \<open>|cos (pi s / 2)|\<close> and \<open>|sin (pi s / 2)|\<close>, whose difference is
  below 1 for \<open>0 < s < 1\<close>: the first trial shift is recorded at both pixels and in both
  directions, and every later update writes another trial shift.
\<close>

lemma fft2_1_0: "fft2 [[1, 0]] = Inr [[1, 1]]"
  by (simp add: fft2_def ncols_def numeral_2_eq_2)

lemma fftshift_1x2: "fftshift [[a, b]] = [[b, a]]"
  by (simp add: fftshift_def roll_half_def)

lemma freq_ramp_2: "freq_ramp 2 = [- (\<i> * of_real pi), 0]"
  by (simp add: freq_ramp_def linspace_def numeral_2_eq_2)

lemma shifted_image_1x2:
  "shifted_image [[1, 1]] [k0, 0] s =
     Inr [[cmod ((1 + exp (k0 * of_real s)) / 2), cmod ((1 - exp (k0 * of_real s)) / 2)]]"
  by (simp add: shifted_image_def fftshift_1x2 ifft2_def ncols_def numeral_2_eq_2)

lemma min_tv_1x2: "min_tv [[a, b]] 1 = Inr [[\<bar>a - b\<bar>, \<bar>a - b\<bar>]]"
proof -
  have r: "rect 1 2 [[a, b]]" by (simp add: rect_def)
  have per: "per [a, b] 0 = a" "per [a, b] 1 = b" "per [a, b] 2 = a" "per [a, b] (- 1) = b"
    by (simp_all add: per_def)
  show ?thesis
    unfolding min_tv_grid [OF r, of 1, simplified]
    by (simp add: grid_def numeral_2_eq_2 tv_pos_def tv_neg_def per)
qed


lemma half_shift_tv:
  fixes e :: complex
  assumes e: "cmod e = 1" and im: "Im e \<noteq> 0"
  shows "\<bar>cmod ((1 + e) / 2) - cmod ((1 - e) / 2)\<bar> < 1"
proof -
  define A where "A = cmod ((1 + e) / 2)"
  define B where "B = cmod ((1 - e) / 2)"
  have sq: "(Re e)\<^sup>2 + (Im e)\<^sup>2 = 1"
    using e cmod_power2 [of e] by simp
  have A2: "A\<^sup>2 = (1 + Re e) / 2"
    unfolding A_def cmod_power2 using sq by (simp add: power2_eq_square field_simps)
  have B2: "B\<^sup>2 = (1 - Re e) / 2"
    unfolding B_def cmod_power2 using sq by (simp add: power2_eq_square field_simps)
  have "1 + e \<noteq> 0" "1 - e \<noteq> 0"
    using im by (auto simp: complex_eq_iff)
  then have pos: "0 < A" "0 < B"
    by (simp_all add: A_def B_def)
  have "(A - B)\<^sup>2 = A\<^sup>2 + B\<^sup>2 - 2 * A * B"
    by (simp add: power2_diff)
  also have "\<dots> = 1 - 2 * A * B"
    by (simp add: A2 B2 field_simps)
  also have "\<dots> < 1"
    using pos by simp
  finally have "(A - B)\<^sup>2 < 1" .
  then have "\<bar>A - B\<bar> < 1"
    by (simp add: abs_square_less_1)
  then show ?thesis
    by (simp add: A_def B_def)
qed

lemma exp_shift_off_axis:
  assumes s: "0 < s" "s < 1"
  shows "cmod (exp (- (\<i> * of_real pi) * of_real s)) = 1 \<and>
         Im (exp (- (\<i> * of_real pi) * of_real s)) \<noteq> 0 \<and>
         cmod (exp (\<i> * of_real pi * of_real s)) = 1 \<and>
         Im (exp (\<i> * of_real pi * of_real s)) \<noteq> 0"
proof -
  have a: "exp (- (\<i> * of_real pi) * of_real s) = cis (- (pi * s))"
    and b: "exp (\<i> * of_real pi * of_real s) = cis (pi * s)"
    unfolding cis_conv_exp by (simp_all add: mult.assoc)
  have "0 < pi * s" using s by simp
  moreover have "pi * s < pi * 1"
    using s by (intro mult_strict_left_mono) simp_all
  ultimately have "0 < sin (pi * s)"
    by (intro sin_gt_zero) simp_all
  then show ?thesis
    unfolding a b by simp
qed

lemma update_shift_1x2:
  assumes "t < v"
  shows "update_shift s [[a, b]] [[t, t]] ([[x, y]], [[0, 0]], [[v, v]]) =
           Inr ([[a, b]], [[s, s]], [[t, t]])"
  using assms
  by (simp add: update_shift_def ew2_def bdim_def ncols_def stretch_def mask_set_def
      mask_fill_def mask_matches_def mask_empty_def)

lemma first_step_1_0:
  assumes s: "0 < s" "s < 1"
  shows "\<exists>st. search_step [[1, 1]] (freq_ramp 2) 1 s
            \<lparr>isp = [[1, 0]], sp = [[0, 0]], tvp = [[1, 1]],
             isn = [[1, 0]], sn = [[0, 0]], tvn = [[1, 1]]\<rparr> = Inr st \<and>
          sp st = [[s, s]] \<and> sn st = [[s, s]] \<and> rect_state 1 2 st"
proof -
  define e where "e = exp (- (\<i> * of_real pi) * of_real s)"
  define f where "f = exp (\<i> * of_real pi * of_real s)"
  define A where "A = cmod ((1 + e) / 2)"
  define B where "B = cmod ((1 - e) / 2)"
  define C where "C = cmod ((1 + f) / 2)"
  define D where "D = cmod ((1 - f) / 2)"
  from exp_shift_off_axis [OF s] have ef: "cmod e = 1" "Im e \<noteq> 0" "cmod f = 1" "Im f \<noteq> 0"
    unfolding e_def f_def by blast+
  have tp: "\<bar>A - B\<bar> < 1" and tn: "\<bar>C - D\<bar> < 1"
    unfolding A_def B_def C_def D_def by (rule half_shift_tv [OF ef(1,2)], rule half_shift_tv [OF ef(3,4)])
  have km: "map uminus [- (\<i> * of_real pi), 0] = [\<i> * of_real pi, 0]"
    by simp
  have ip: "shifted_image [[1, 1]] [- (\<i> * of_real pi), 0] s = Inr [[A, B]]"
    unfolding A_def B_def e_def by (rule shifted_image_1x2)
  have ineg: "shifted_image [[1, 1]] [\<i> * of_real pi, 0] s = Inr [[C, D]]"
    unfolding C_def D_def f_def by (rule shifted_image_1x2)
  show ?thesis
    unfolding search_step_def freq_ramp_2 km ip ineg bindE_Inr min_tv_1x2
    by (simp add: update_shift_1x2 [OF tp] update_shift_1x2 [OF tn] rect_state_def rect_def)
qed


lemma ssamp_head: "\<exists>ss. ssamp = (2 / 100) # ss \<and> (\<forall>s\<in>set ss. 0 < s)"
proof -
  have l: "length ssamp = 45" by (simp add: ssamp_def)
  have h: "ssamp ! 0 = 2 / 100" by (simp add: ssamp_def linspace_def)
  from l obtain a ss where ss: "ssamp = a # ss" by (cases ssamp) auto
  have a: "a = 2 / 100" using h unfolding ss nth_Cons_0 .
  have "0 < s" if "s \<in> set ss" for s
  proof -
    from that have "s \<in> set ssamp" by (simp add: ss)
    from ssamp_range [OF this] show ?thesis by simp
  qed
  with ss a show ?thesis by blast
qed

lemma shift_search_1_0:
  "\<exists>st. shift_search [[1, 0]] 1 ssamp = Inr st \<and> rect_state 1 2 st \<and>
        entries (\<lambda>v. 0 < v) (sp st) \<and> entries (\<lambda>v. 0 < v) (sn st)"
proof -
  obtain ss where ss: "ssamp = (2 / 100) # ss" and pos: "\<forall>s\<in>set ss. 0 < s"
    using ssamp_head by blast
  obtain st1 where st1: "search_step [[1, 1]] (freq_ramp 2) 1 (2 / 100)
            \<lparr>isp = [[1, 0]], sp = [[0, 0]], tvp = [[1, 1]],
             isn = [[1, 0]], sn = [[0, 0]], tvn = [[1, 1]]\<rparr> = Inr st1"
    and f1: "sp st1 = [[2 / 100, 2 / 100]]" "sn st1 = [[2 / 100, 2 / 100]]" "rect_state 1 2 st1"
    using first_step_1_0 [of "2 / 100"] by auto
  have c: "rect 1 2 ([[1, 1]] :: complex list list)"
    by (simp add: rect_def)
  obtain st where st: "search_loop [[1, 1]] (freq_ramp 2) 1 ss st1 = Inr st" "rect_state 1 2 st"
    using search_loop_total [OF c length_freq_ramp _ _ _ f1(3), of 1 ss] by auto
  have e1: "entries (\<lambda>v. 0 < v) (sp st1)" "entries (\<lambda>v. 0 < v) (sn st1)"
    by (simp_all add: f1 entries_def)
  have ent: "entries (\<lambda>v. 0 < v) (sp st) \<and> entries (\<lambda>v. 0 < v) (sn st)"
    by (rule search_loop_entries [OF st(1) e1 pos])
  have tv0: "min_tv [[1, 0]] 1 = Inr [[1, 1]]"
    by (simp add: min_tv_1x2)
  have nc: "ncols [[1, 0::real]] = 2"
    by (simp add: ncols_def)
  have mm: "map (map of_real) [[1, 0::real]] = ([[1, 0]] :: complex list list)"
    by simp
  have z: "map (map (\<lambda>_. 0::real)) [[1, 0::real]] = [[0, 0]]"
    by simp
  have "shift_search [[1, 0]] 1 ssamp = Inr st"
    unfolding shift_search_def tv0 ss Let_def nc mm z fft2_1_0 bindE_Inr fftshift_1x2
      search_loop.simps st1 st(1)
    by simp
  with st(2) ent show ?thesis by blast
qed

lemma rect_1_2: "rect 1 2 y \<Longrightarrow> \<exists>a b. y = [[a, b]]"
  by (auto simp: rect_def numeral_2_eq_2 length_Suc_conv)

lemma denominators_1x2:
  assumes r: "rect_state 1 2 st"
    and e: "entries (\<lambda>v. 0 < v) (sp st)" "entries (\<lambda>v. 0 < v) (sn st)"
  shows "length (denominators st) = 2"
proof -
  from r obtain a b c d where s: "sp st = [[a, b]]" "sn st = [[c, d]]"
    unfolding rect_state_def using rect_1_2 by metis
  from e have "0 < a" "0 < b" "0 < c" "0 < d"
    by (simp_all add: s entries_def)
  then have "a + c \<noteq> 0" "b + d \<noteq> 0" by simp_all
  then show ?thesis
    by (simp add: denominators_def nonzero2_def shift_sum_def take_idx_def s Let_def)
qed

lemma take_ssamp: "take 45 ssamp = ssamp"
  by (simp add: ssamp_def)


section \<open>Lemmas: an axis not longer than \<open>n_points\<close>\<close>

text \<open>
  On an axis of length \<open>n \<le> n_points\<close> all padding slices of \<open>_image_tv\<close> clip to the whole axis
  and the TV maps have \<open>max 0 (3 n - 2 n_points - 2)\<close> columns, fewer than the image. With no
  column the boolean index \<open>tvp > tvs_p\<close> selects nothing and the search changes nothing; with
  at least one column the index is refused.
\<close>

lemma min_tv_1x3_shape: "case min_tv [[a, b, c]] 3 of Inr [[t]] \<Rightarrow> True | _ \<Rightarrow> False"
  by code_simp

lemma min_tv_1x3: "\<exists>t. min_tv [[a, b, c]] 3 = Inr [[t]]"
  using min_tv_1x3_shape [of a b c]
  by (auto split: sum.splits list.splits)

lemma rect_1_3: "rect 1 3 y \<Longrightarrow> \<exists>a b c. y = [[a, b, c]]"
  by (auto simp: rect_def numeral_3_eq_3 length_Suc_conv)

lemma update_shift_1x3:
  "update_shift s [[a, b, c]] [[t]] ([[x, y, z]], sh, [[v]]) = Inl IndexError"
  by (simp add: update_shift_def ew2_def bdim_def ncols_def stretch_def mask_set_def
      mask_matches_def)

lemma update_shift_empty_tv:
  "update_shift s [[a, b], [c, d]] [[], []] ([[x, y], [z, w]], sh, [[], []]) =
     (if mask_matches [[], []] sh then Inr ([[x, y], [z, w]], sh, [[], []]) else Inl IndexError)"
  by (simp add: update_shift_def ew2_def bdim_def ncols_def stretch_def mask_set_def
      mask_fill_def mask_matches_def mask_empty_def)

lemma gibbs_removal_1d_2x2:
  assumes "rect 2 2 x"
  shows "gibbs_removal_1d x 1 3 = Inr x"
proof -
  obtain a b c d where x: "x = [[a, b], [c, d]]"
    using rect_2_2 [OF assms] by blast
  let ?z = "[[0, 0], [0, 0]] :: real list list"
  let ?st = "\<lparr>isp = x, sp = ?z, tvp = [[], []], isn = x, sn = ?z, tvn = [[], []]\<rparr>"
  have rx: "rect 2 2 (map (map of_real) x :: complex list list)"
    by (rule rect_map_map [OF assms])
  obtain c0 where c0: "fft2 (map (map of_real) x) = Inr c0" "rect 2 2 c0"
    using fft2_rect [OF rx] by auto
  have mz: "mask_matches [[], []] ?z"
    by (simp add: mask_matches_def ncols_def)
  have step: "search_step (fftshift c0) (freq_ramp 2) 3 s ?st = Inr ?st" for s
  proof -
    have k: "length (freq_ramp 2) = 2" "length (map uminus (freq_ramp 2)) = 2"
      by simp_all
    obtain ip where ip: "shifted_image (fftshift c0) (freq_ramp 2) s = Inr ip" "rect 2 2 ip"
      using shifted_image_rect [OF rect_fftshift [OF c0(2)] k(1)] by auto
    obtain im where im: "shifted_image (fftshift c0) (map uminus (freq_ramp 2)) s = Inr im"
      "rect 2 2 im"
      using shifted_image_rect [OF rect_fftshift [OF c0(2)] k(2)] by auto
    obtain a1 b1 c1 d1 where ip': "ip = [[a1, b1], [c1, d1]]"
      using rect_2_2 [OF ip(2)] by blast
    obtain a2 b2 c2 d2 where im': "im = [[a2, b2], [c2, d2]]"
      using rect_2_2 [OF im(2)] by blast
    show ?thesis
      unfolding search_step_def ip(1) im(1) bindE_Inr
      by (simp add: ip' im' x min_tv_2x2_eval update_shift_empty_tv mz)
  qed
  have loop: "search_loop (fftshift c0) (freq_ramp 2) 3 ss ?st = Inr ?st" for ss
    by (induction ss) (simp_all add: step)
  have nc: "ncols x = 2" by (simp add: x ncols_def)
  have z: "map (map (\<lambda>_. 0::real)) x = ?z" by (simp add: x)
  have tv: "min_tv x 3 = Inr [[], []]"
    by (simp add: x min_tv_2x2_eval)
  have s: "shift_search x 3 ssamp = Inr ?st"
    unfolding shift_search_def tv bindE_Inr Let_def nc z c0(1) by (rule loop)
  have g: "grid 2 2 (\<lambda>_ _. 0::real) = ?z"
    by (simp add: grid_def numeral_2_eq_2)
  have "interpolate x ?st = x"
    by (rule interpolate_keep [of _ 2 2]) (simp_all add: g)
  then show ?thesis
    by (simp add: gibbs_removal_1d_def s)
qed


section \<open>Lemmas: rank-3 volumes with square slices\<close>

text \<open>
  Every slice \<open>vol[:, :, vi]\<close> of a rank-3 volume has the shape of the first two axes, whatever
  the data; on square slices longer than \<open>n_points\<close> the loop over the slices returns.
\<close>

lemma rect_get_slice: "rect (shape v ! 0) (shape v ! 1) (get_slice v vi)"
  by (simp add: get_slice_def rect_def list_all_iff)

lemma set_slice_rect:
  assumes "rect (shape v ! 0) (shape v ! 1) img" "0 < shape v ! 0"
  shows "\<exists>w. set_slice v vi img = Inr w \<and> shape w = shape v"
proof -
  have "length img = shape v ! 0" "ncols img = shape v ! 1"
    using assms rect_ncols [OF assms] by (simp_all add: rect_def)
  then show ?thesis
    by (simp add: set_slice_def Let_def)
qed

lemma slice_loop_total:
  assumes g: "rect m n G0" "rect m n G1" and mn: "0 < m" "0 < n"
    and p: "1 \<le> p" "p < int n" "p < int m"
  shows "shape v ! 0 = m \<Longrightarrow> shape v ! 1 = n \<Longrightarrow>
         \<exists>w. slice_loop ver v p G0 G1 vis = Inr w \<and> shape w = shape v"
proof (induction vis arbitrary: v)
  case Nil
  then show ?case by simp
next
  case (Cons vi vis)
  have r: "rect m n (get_slice v vi)"
    using rect_get_slice [of v vi] Cons.prems by simp
  obtain img where img: "gibbs_removal_2d ver (get_slice v vi) p (Some G0) (Some G1) = Inr img"
    "rect m n img"
    using gibbs_removal_2d_total [OF r mn p g] by blast
  obtain v' where v': "set_slice v vi img = Inr v'" "shape v' = shape v"
    using set_slice_rect [of v img vi] img(2) mn(1) Cons.prems by auto
  from Cons.IH [of v'] Cons.prems v'(2) obtain w where
    "slice_loop ver v' p G0 G1 vis = Inr w" "shape w = shape v'"
    by auto
  then show ?case
    by (simp add: img(1) v')
qed

lemma run_slices_rank3:
  assumes s: "shape v = [m, m, k]" and m: "0 < m" and p: "1 \<le> p" "p < int m"
  shows "\<exists>w. run_slices ver v 3 p = Inr w \<and> shape w = shape v"
proof -
  have "\<exists>w. slice_loop ver v p (grid m m (W0 m)) (grid m m (W1 m)) [0..<k] = Inr w \<and>
      shape w = shape v"
    by (rule slice_loop_total [OF rect_grid rect_grid m m p(1) p(2) p(2)]) (simp_all add: s)
  then show ?thesis
    by (simp add: run_slices_def s weights_square [OF m])
qed

lemma gibbs_removal_rank3_axis2:
  assumes s: "shape vol = [m, m, k]" and m: "0 < m" and p: "1 \<le> p" "p < int m"
  shows "\<exists>r. gibbs_removal ver vol 2 p = Inr r"
proof -
  have nd: "ndim vol = 3" by (simp add: ndim_def s)
  obtain w where "run_slices ver vol 3 p = Inr w"
    using run_slices_rank3 [OF s m p] by blast
  then show ?thesis
    by (simp add: gibbs_removal_def nd)
qed

lemma gibbs_removal_rank3_axis0:
  assumes s: "shape vol = [k, m, m]" and m: "0 < m" and p: "1 \<le> p" "p < int m"
  shows "\<exists>r. gibbs_removal ver vol 0 p = Inr r"
proof -
  have nd: "ndim vol = 3" by (simp add: ndim_def s)
  obtain w where w: "swapaxes vol 0 2 = Inr w" "shape w = [m, m, k]"
    by (simp add: swapaxes_def ndim_def s swap_entries_def Let_def)
  obtain w3 where w3: "run_slices ver w 3 p = Inr w3" "shape w3 = shape w"
    using run_slices_rank3 [OF w(2) m p] by blast
  obtain r where r: "swapaxes w3 0 2 = Inr r"
    by (simp add: swapaxes_def ndim_def w3(2) w(2) Let_def)
  show ?thesis
    by (simp add: gibbs_removal_def nd w(1) w3(1) r)
qed


lemma gibbs_removal_1d_constant:
  assumes "0 < m" and "0 < n" and "1 \<le> p" and "p < (if axis \<noteq> 0 then int n else int m)"
  shows "gibbs_removal_1d (replicate m (replicate n c)) axis p = Inr (replicate m (replicate n c))"
  using gibbs_removal_1d_const_grid [OF assms] by (simp add: replicate_grid)


section \<open>Lemmas: the 2D Slice Combiner without weights\<close>

text \<open>
  Before NumPy 2.0 absent weights are replaced by the weights of \<open>_weights\<close>; from NumPy 2.0
  on they are not, and the combiner returns no slice.
\<close>

lemma gibbs_removal_2d_default_weights:
  assumes "G0 = None \<or> G1 = None"
  shows "gibbs_removal_2d NumPy_1 img n_points G0 G1 =
           bindE (weights (length img, ncols img))
             (\<lambda>(W0, W1). gibbs_removal_2d NumPy_1 img n_points (Some W0) (Some W1))"
proof (cases "weights (length img, ncols img)")
  case (Inl e)
  then show ?thesis
    using assms by (auto simp: gibbs_removal_2d_def any_is_None_def split: option.splits)
next
  case (Inr W)
  then show ?thesis
    using assms
    by (cases W) (auto simp: gibbs_removal_2d_def any_is_None_def times_weights_def
        split: option.splits)
qed

lemma gibbs_removal_2d_no_weights:
  assumes "G0 = None \<or> G1 = None"
  shows "\<exists>e. gibbs_removal_2d NumPy_2 img n_points G0 G1 = Inl e"
proof (cases "gibbs_removal_2d NumPy_2 img n_points G0 G1")
  case (Inl e)
  then show ?thesis by simp
next
  case (Inr y)
  then obtain A B where "times_weights A G1 = Inr B \<or> times_weights A G0 = Inr B" "G0 = None \<or> G1 = None"
    using assms unfolding gibbs_removal_2d_def
    by (auto simp: bindE_eq_Inr any_is_None_def split: option.splits)
  then show ?thesis
    using Inr assms unfolding gibbs_removal_2d_def
    by (auto simp: bindE_eq_Inr any_is_None_def times_weights_def split: option.splits)
qed


section \<open>The TV Estimator is a windowed periodic variation\<close>

text \<open>
  C4 (amended). Let the array, oriented so that the chosen axis runs along its rows, have
  rows of length \<open>n\<close>, and let \<open>1 \<le> n_points < n\<close>. Then \<open>_image_tv\<close> returns, at position
  \<open>i\<close> of a row \<open>x\<close>, the positive score \<open>\<Sum>k<n_points. |x[i+k] - x[i+1+k]|\<close> and the negative
  score \<open>\<Sum>k<n_points. |x[i-k] - x[i-1-k]|\<close>, every index taken modulo \<open>n\<close> (wrap-around).
  The positive window starts at \<open>x[i]\<close>, one position earlier than the specification says.
\<close>

theorem image_tv_periodic:
  assumes "rect m n (orient axis x)" and "1 \<le> p" and "p < int n"
  shows "image_tv x axis p =
           Inr (orient axis (table n (tv_pos p) (orient axis x)),
                orient axis (table n (tv_neg p) (orient axis x)))"
  using assms by (rule image_tv_table)

theorem image_tv_periodic_witness:
  "rect 1 5 (orient 1 [[0, 1, 3, 3, 3::real]]) \<and> (1::int) \<le> 1 \<and> (1::int) < int 5 \<and>
   image_tv [[0, 1, 3, 3, 3]] 1 1 = Inr ([[1, 2, 0, 0, 3]], [[3, 1, 2, 0, 0]])"
proof -
  have r: "rect 1 5 (orient 1 [[0, 1, 3, 3, 3::real]])"
    by (simp add: rect_def orient_def)
  have "image_tv [[0, 1, 3, 3, 3]] 1 1 =
          Inr (orient 1 (table 5 (tv_pos 1) (orient 1 [[0, 1, 3, 3, 3]])),
               orient 1 (table 5 (tv_neg 1) (orient 1 [[0, 1, 3, 3, 3]])))"
    using image_tv_periodic [OF r, of 1] by simp
  moreover have "orient 1 (table 5 (tv_pos 1) (orient 1 [[0, 1, 3, 3, 3::real]])) = [[1, 2, 0, 0, 3]]"
    by code_simp
  moreover have "orient 1 (table 5 (tv_neg 1) (orient 1 [[0, 1, 3, 3, 3::real]])) = [[3, 1, 2, 0, 0]]"
    by code_simp
  ultimately show ?thesis using r by simp
qed

text \<open>
  The formula of the specification, \<open>|x[i+1+n] - x[i+2+n]|\<close>, gives another positive score
  on the row \<open>0, 1, 3, 3, 3\<close> with one neighbour: 2 at the first pixel, where the code
  returns \<open>|x[0] - x[1]| = 1\<close>.
\<close>

theorem image_tv_stated_counterexample:
  "image_tv [[0, 1, 3, 3, 3]] 1 1 \<noteq>
     Inr (orient 1 (table 5 (tv_pos_stated 1) (orient 1 [[0, 1, 3, 3, 3]])),
          orient 1 (table 5 (tv_neg 1) (orient 1 [[0, 1, 3, 3, 3]])))"
  by code_simp

section \<open>The shift fields and the interpolation of the 1D Line Corrector\<close>

text \<open>
  C8. After any number \<open>j\<close> of passes of the loop over the trial shifts (the search run on
  the first \<open>j\<close> entries of \<open>linspace(0.02, 0.9, 45)\<close>, so \<open>j = 45\<close> is the finished search),
  every entry of \<open>sp\<close> and of \<open>sn\<close> is 0 or a trial shift of the grid, and every trial shift
  lies in [0.02, 0.9].
\<close>

theorem shift_fields_in_range:
  assumes "shift_search xs p (take j ssamp) = Inr st"
  shows "entries shift_ok (sp st) \<and> entries shift_ok (sn st)"
  by (rule shift_search_entries [OF assms _ shift_ok_grid]) (simp add: shift_ok_def)

text \<open>
  The search on the image \<open>[[1, 0]]\<close> with \<open>n_points = 1\<close> returns, and it has recorded a trial
  shift at every pixel, in both directions.
\<close>

theorem shift_fields_in_range_witness:
  "\<exists>st. shift_search [[1, 0]] 1 (take 45 ssamp) = Inr st \<and>
        entries (\<lambda>v. v \<noteq> 0) (sp st) \<and> entries (\<lambda>v. v \<noteq> 0) (sn st) \<and>
        entries shift_ok (sp st) \<and> entries shift_ok (sn st)"
proof -
  obtain st where st: "shift_search [[1, 0]] 1 ssamp = Inr st"
    and pos: "entries (\<lambda>v. 0 < v) (sp st)" "entries (\<lambda>v. 0 < v) (sn st)"
    using shift_search_1_0 by blast
  have e: "shift_search [[1, 0]] 1 (take 45 ssamp) = Inr st"
    unfolding take_ssamp by (rule st)
  have nz: "entries (\<lambda>v. v \<noteq> 0) (sp st)" "entries (\<lambda>v. v \<noteq> 0) (sn st)"
    using pos by (auto intro: entries_mono)
  from shift_fields_in_range [OF e] nz e show ?thesis by blast
qed

text \<open>
  C6. When the shift search has returned, all entries of \<open>sp\<close> and \<open>sn\<close> are non-negative,
  and every divisor \<open>sp[idx] + sn[idx]\<close> of the interpolation, taken at the positions
  \<open>idx = np.nonzero(sp + sn)\<close> only, is strictly positive: no division by zero.
\<close>

theorem interpolation_divisors_positive:
  assumes "shift_search xs p ssamp = Inr st"
  shows "entries (\<lambda>v. 0 \<le> v) (sp st) \<and> entries (\<lambda>v. 0 \<le> v) (sn st) \<and>
         list_all (\<lambda>d. d \<noteq> 0 \<and> 0 < d) (denominators st)"
proof -
  have full: "shift_search xs p (take 45 ssamp) = Inr st"
    using assms by (simp add: ssamp_def)
  have ok: "entries shift_ok (sp st) \<and> entries shift_ok (sn st)"
    by (rule shift_search_entries [OF full _ shift_ok_grid]) (simp add: shift_ok_def)
  have pos: "0 \<le> v" if "shift_ok v" for v
    using that by (auto simp: shift_ok_def)
  have nn: "entries (\<lambda>v. 0 \<le> v) (sp st)" "entries (\<lambda>v. 0 \<le> v) (sn st)"
    using ok pos by (auto intro: entries_mono)
  with denominators_pos [OF nn] show ?thesis by simp
qed

text \<open>
  On the image \<open>[[1, 0]]\<close> with \<open>n_points = 1\<close> the interpolation divides at both pixels.
\<close>

theorem interpolation_divisors_positive_witness:
  "\<exists>st. shift_search [[1, 0]] 1 ssamp = Inr st \<and> length (denominators st) = 2 \<and>
        list_all (\<lambda>d. d \<noteq> 0 \<and> 0 < d) (denominators st)"
proof -
  obtain st where st: "shift_search [[1, 0]] 1 ssamp = Inr st" and r: "rect_state 1 2 st"
    and pos: "entries (\<lambda>v. 0 < v) (sp st)" "entries (\<lambda>v. 0 < v) (sn st)"
    using shift_search_1_0 by blast
  from interpolation_divisors_positive [OF st] denominators_1x2 [OF r pos] st
  show ?thesis by blast
qed

text \<open>
  C7. A constant array is returned unchanged when the corrected axis is longer than
  \<open>n_points\<close> (lemma \<open>gibbs_removal_1d_constant\<close>) and when the TV maps have no column (lemma
  \<open>gibbs_removal_1d_2x2\<close>), but not every constant array is returned: on \<open>np.ones((1, 3))\<close>
  with \<open>axis = 1\<close> and the default \<open>n_points = 3\<close> the TV maps have shape (1, 1), and the
  boolean index \<open>tvp > tvs_p\<close> of that shape is refused by \<open>img_p\<close>, of shape (1, 3), in the
  first pass of the search.
\<close>

theorem gibbs_removal_1d_constant_short_axis: "gibbs_removal_1d [[1, 1, 1]] 1 3 = Inl IndexError"
proof -
  let ?x = "[[1, 1, 1]] :: real list list"
  have rx: "rect 1 3 ([[1, 1, 1]] :: complex list list)"
    by (simp add: rect_def)
  obtain c0 where c0: "fft2 [[1, 1, 1]] = Inr c0" "rect 1 3 c0"
    using fft2_rect [OF rx] by auto
  have nc: "ncols ?x = 3"
    by (simp add: ncols_def)
  obtain s ss where ss: "ssamp = s # ss"
    using ssamp_Cons by blast
  have k: "length (freq_ramp 3) = 3" "length (map uminus (freq_ramp 3)) = 3"
    by simp_all
  obtain ip where ip: "shifted_image (fftshift c0) (freq_ramp 3) s = Inr ip" "rect 1 3 ip"
    using shifted_image_rect [OF rect_fftshift [OF c0(2)] k(1)] by auto
  obtain im where im: "shifted_image (fftshift c0) (map uminus (freq_ramp 3)) s = Inr im"
    "rect 1 3 im"
    using shifted_image_rect [OF rect_fftshift [OF c0(2)] k(2)] by auto
  obtain a b c where abc: "ip = [[a, b, c]]"
    using rect_1_3 [OF ip(2)] by blast
  obtain t0 where t0: "min_tv ?x 3 = Inr [[t0]]"
    using min_tv_1x3 by blast
  obtain tp where tp: "min_tv ip 3 = Inr [[tp]]"
    unfolding abc using min_tv_1x3 by blast
  obtain tn where tn: "min_tv im 3 = Inr [[tn]]"
    using rect_1_3 [OF im(2)] min_tv_1x3 by metis
  have up: "update_shift s ip [[tp]] (?x, [[0, 0, 0]], [[t0]]) = Inl IndexError"
    unfolding abc by (rule update_shift_1x3)
  have step: "search_step (fftshift c0) (freq_ramp 3) 3 s
      \<lparr>isp = ?x, sp = [[0, 0, 0]], tvp = [[t0]],
       isn = ?x, sn = [[0, 0, 0]], tvn = [[t0]]\<rparr> = Inl IndexError"
    by (simp add: search_step_def ip(1) im(1) tp tn up)
  have "shift_search ?x 3 ssamp = Inl IndexError"
    by (simp add: shift_search_def t0 c0(1) nc ss step)
  then show ?thesis
    by (simp add: gibbs_removal_1d_def)
qed

section \<open>The Weight Generator and the 2D Slice Combiner\<close>

text \<open>
  C5. The claim holds on square shapes (lemmas \<open>weights_square\<close>, \<open>weights_complementary\<close>), but
  not for every shape: both axes of the meshgrid are built from \<open>shape[0]\<close>, so for the shape
  (4, 6) the 2 by 2 block of interior weights is assigned to the 2 by 4 interior of \<open>G1\<close>, which
  NumPy refuses; \<open>_weights\<close> returns no arrays.
\<close>

theorem weights_nonsquare_raises: "weights (4, 6) = Inl ValueError"
  by (rule weights_nonsquare) simp_all

text \<open>
  C3. Called on \<open>np.ones((4, 6))\<close> without weights, \<open>_gibbs_removal_2d\<close> returns no slice.
  Before NumPy 2.0 the test \<open>np.any(G0) is None\<close> holds and \<open>_weights\<close> is called, which
  refuses the shape (4, 6). From NumPy 2.0 on \<open>np.any(None)\<close> is \<open>False\<close>, the test fails,
  \<open>_weights\<close> is never called, and the product with \<open>G1 = None\<close> raises. Lemma
  \<open>gibbs_removal_2d_default_weights\<close> is the claim on the older NumPy, lemma
  \<open>gibbs_removal_2d_no_weights\<close> the failure on the newer one, for every slice.
\<close>

theorem gibbs_removal_2d_without_weights:
  "gibbs_removal_2d NumPy_1 (replicate 4 (replicate 6 1)) 3 None None = Inl ValueError \<and>
   gibbs_removal_2d NumPy_2 (replicate 4 (replicate 6 1)) 3 None None = Inl TypeError"
proof -
  let ?x = "grid 4 6 (\<lambda>_ _. 1::real)"
  have s: "length ?x = 4" "ncols ?x = 6"
    by (simp_all add: ncols_grid)
  have a: "gibbs_removal_2d NumPy_1 ?x 3 None None = Inl ValueError"
    by (simp add: gibbs_removal_2d_def any_is_None_def s weights_nonsquare)
  have c: "gibbs_removal_1d ?x 1 3 = Inr ?x" "gibbs_removal_1d ?x 0 3 = Inr ?x"
    using gibbs_removal_1d_const_grid [of 4 6 3 1 1] gibbs_removal_1d_const_grid [of 4 6 3 0 1]
    by simp_all
  obtain C where C: "fft2 (map (map of_real) ?x) = Inr C"
    using fft2_rect [OF rect_map_map [OF rect_grid], of 4 6] by auto
  have b: "gibbs_removal_2d NumPy_2 ?x 3 None None = Inl TypeError"
    by (simp add: gibbs_removal_2d_def any_is_None_def c C times_weights_def)
  from a b show ?thesis
    unfolding replicate_grid ..
qed

section \<open>The Volume Dispatcher\<close>

text \<open>
  C1. The three validation errors are raised as stated (lemma \<open>gibbs_removal_rejects\<close>), but
  valid ranks and slice axes do not always succeed. A 4 by 4 image with \<open>slice_axis = 0\<close> is
  corrected and then lost: the final \<open>np.swapaxes(vol, slice_axis, 2)\<close> of line 316-317 lacks
  the guard \<open>nd > 2\<close> of line 289 and raises on a rank-2 array (for every rank-2 input, lemma
  \<open>gibbs_removal_rank2_axis\<close>). A 4 by 6 image with the default \<open>slice_axis = 2\<close> is refused
  by \<open>_weights\<close>.
\<close>

theorem gibbs_removal_raises_on_valid_input:
  "gibbs_removal ver \<lparr>shape = [4, 4], data = replicate 16 1\<rparr> 0 3 = Inl AxisError \<and>
   gibbs_removal ver \<lparr>shape = [4, 6], data = replicate 24 1\<rparr> 2 3 = Inl ValueError"
proof -
  obtain y where y: "run_slices ver \<lparr>shape = [4, 4], data = replicate 16 1\<rparr> 2 3 = Inr (of_rows y)"
    using run_slices_constant_2d [of 4 3 ver 1] by auto
  have "swapaxes (of_rows y) 0 2 = Inl AxisError"
    by (simp add: swapaxes_def of_rows_def ndim_def)
  moreover have nd: "ndim \<lparr>shape = [4, 4], data = replicate 16 (1::real)\<rparr> = 2"
    "ndim \<lparr>shape = [4, 6], data = replicate 24 (1::real)\<rparr> = 2"
    by (simp_all add: ndim_def)
  ultimately have a: "gibbs_removal ver \<lparr>shape = [4, 4], data = replicate 16 1\<rparr> 0 3 = Inl AxisError"
    by (simp add: gibbs_removal_def nd y)
  have "run_slices ver \<lparr>shape = [4, 6], data = replicate 24 1\<rparr> 2 3 = Inl ValueError"
    by (simp add: run_slices_def weights_nonsquare)
  then have b: "gibbs_removal ver \<lparr>shape = [4, 6], data = replicate 24 1\<rparr> 2 3 = Inl ValueError"
    by (simp add: gibbs_removal_def nd)
  from a b show ?thesis ..
qed



text \<open>
  C9. For a rank-3 volume, \<open>gibbs_removal(vol, slice_axis=0)\<close> is the same computation, with
  the same result or the same error, as transposing axes (0, 2), running with
  \<open>slice_axis = 2\<close> and transposing back.
\<close>

theorem gibbs_removal_axis_swap:
  assumes "ndim vol = 3"
  shows "gibbs_removal ver vol 0 n_points = axis_swap_reference ver vol n_points"
proof (cases "swapaxes vol 0 2")
  case (Inl e)
  then show ?thesis
    using assms by (simp add: gibbs_removal_def axis_swap_reference_def)
next
  case (Inr w)
  then have "ndim w = 3"
    using assms by (simp add: ndim_swapaxes)
  then show ?thesis
    using assms Inr
    by (simp add: gibbs_removal_def axis_swap_reference_def bindE_def split: sum.splits)
qed

text \<open>
  On the volume of shape (2, 4, 4) with the data 0, 1, ..., 31 both routes return the same
  corrected volume.
\<close>

theorem gibbs_removal_axis_swap_witness:
  "\<exists>r. gibbs_removal NumPy_2 \<lparr>shape = [2, 4, 4], data = map real [0..<32]\<rparr> 0 3 = Inr r \<and>
       axis_swap_reference NumPy_2 \<lparr>shape = [2, 4, 4], data = map real [0..<32]\<rparr> 3 = Inr r"
proof -
  let ?vol = "\<lparr>shape = [2, 4, 4], data = map real [0..<32]\<rparr>"
  have nd: "ndim ?vol = 3"
    by (simp add: ndim_def)
  obtain r where r: "gibbs_removal NumPy_2 ?vol 0 3 = Inr r"
    using gibbs_removal_rank3_axis0 [of ?vol 2 4 3 NumPy_2] by auto
  from gibbs_removal_axis_swap [OF nd, of NumPy_2 3] r show ?thesis
    by (intro exI [of _ r]) simp
qed

end
